theory Spec2Isabelle
  imports Main "HOL-Library.Word" "HOL-Library.Monad_Syntax"
begin

unbundle bit_operations_syntax

section \<open>The allocator of mm.c, embedded\<close>

text \<open>
  The model is for the 64-bit target (\<open>sizeof(void *) = 8\<close>, so WSIZE = 8 and DSIZE = 16,
  the figures of the specification's scenarios). \<open>size_t\<close>, \<open>uintptr_t\<close> and pointers are
  64-bit words; arithmetic on them wraps as in C.

  Every access of mm.c to the arena is a read or a write of one word (GET and PUT, the
  fields of \<open>struct free_block\<close>, the entries of \<open>free_listp\<close>). The store therefore holds
  one word cell per address that has one; an access to an address without a cell is a
  fault (a crash of the C program), and the operation then has no result: \<open>None\<close>.
  The allocator's three globals and the two variables of the arena are fields of the
  state.
\<close>

type_synonym addr = "64 word"

record heap =
  mem :: "addr \<Rightarrow> 64 word option"
  free_listp :: addr
  heap_listp :: addr
  failedsize :: "64 word"
  mem_brk :: addr
  mem_max_addr :: addr

definition WSIZE :: "64 word" where [simp]: "WSIZE = 8"
definition DSIZE :: "64 word" where [simp]: "DSIZE = 2 * WSIZE"
definition NULL :: addr where [simp]: "NULL = 0"

text \<open>
  Modelled from the spec: \<open>mem_sbrk\<close> (memlib.c is not among the sources). The
  specification's arena operation \<open>heap_extend(n_bytes)\<close> returns the old end of the heap
  and moves the end by \<open>n_bytes\<close>, or fails and consumes nothing. Failure is the C
  value \<open>(void *)-1\<close>; the arena is exhausted when the new end would pass
  \<open>mem_max_addr\<close>.
\<close>

definition mem_sbrk :: "64 word \<Rightarrow> heap \<Rightarrow> addr \<times> heap" where
  "mem_sbrk incr s =
     (if unat (mem_max_addr s) < unat (mem_brk s) + unat incr then (- 1, s)
      else (mem_brk s, s\<lparr>mem_brk := mem_brk s + incr\<rparr>))"

subsection \<open>The macros\<close>

definition PACK :: "64 word \<Rightarrow> 64 word \<Rightarrow> 64 word" where
  "PACK sz alloc = sz OR alloc"

definition GET :: "heap \<Rightarrow> addr \<Rightarrow> 64 word option" where
  "GET s p = mem s p"

definition PUT :: "addr \<Rightarrow> 64 word \<Rightarrow> heap \<Rightarrow> heap option" where
  "PUT p val s =
     (case mem s p of None \<Rightarrow> None
      | Some old \<Rightarrow> Some (s\<lparr>mem := (mem s)(p \<mapsto> val)\<rparr>))"

definition GET_SIZE :: "heap \<Rightarrow> addr \<Rightarrow> 64 word option" where
  "GET_SIZE s p = map_option (\<lambda>w. w AND NOT (DSIZE - 1)) (GET s p)"

definition GET_ALLOC :: "heap \<Rightarrow> addr \<Rightarrow> 64 word option" where
  "GET_ALLOC s p = map_option (\<lambda>w. w AND 1) (GET s p)"

definition HDRP :: "addr \<Rightarrow> addr" where
  "HDRP bp = bp - WSIZE"

definition FTRP :: "heap \<Rightarrow> addr \<Rightarrow> addr option" where
  "FTRP s bp = map_option (\<lambda>sz. bp + sz - DSIZE) (GET_SIZE s (HDRP bp))"

definition NEXT_BLKP :: "heap \<Rightarrow> addr \<Rightarrow> addr option" where
  "NEXT_BLKP s bp = map_option (\<lambda>sz. bp + sz) (GET_SIZE s (bp - WSIZE))"

definition PREV_BLKP :: "heap \<Rightarrow> addr \<Rightarrow> addr option" where
  "PREV_BLKP s bp = map_option (\<lambda>sz. bp - sz) (GET_SIZE s (bp - DSIZE))"

text \<open>
  \<open>struct free_block\<close> has the field \<open>prev\<close> at offset 0 and \<open>next\<close> at offset WSIZE;
  \<open>free_listp[i]\<close> is the word at \<open>free_listp + i * WSIZE\<close>.
\<close>

definition prev_field :: "addr \<Rightarrow> addr" where
  "prev_field b = b"

definition next_field :: "addr \<Rightarrow> addr" where
  "next_field b = b + WSIZE"

definition list_slot :: "heap \<Rightarrow> nat \<Rightarrow> addr" where
  "list_slot s i = free_listp s + of_nat i * WSIZE"

subsection \<open>The team's helper functions\<close>

definition find_list :: "64 word \<Rightarrow> nat" where
  "find_list sz =
     (if sz \<le> 64 then 0
      else if sz \<le> 128 then 1
      else if sz \<le> 256 then 2
      else if sz \<le> 512 then 3
      else if sz \<le> 1024 then 4
      else if sz \<le> 2048 then 5
      else if sz \<le> 4096 then 6
      else 7)"

definition insert_free :: "64 word \<Rightarrow> addr \<Rightarrow> heap \<Rightarrow> heap option" where
  "insert_free asize bp s =
     (let idx = find_list asize in
      do {
        h \<leftarrow> GET s (list_slot s idx);
        if h = NULL then do {
          s1 \<leftarrow> PUT (list_slot s idx) bp s;
          h1 \<leftarrow> GET s1 (list_slot s1 idx);
          s2 \<leftarrow> PUT (next_field h1) NULL s1;
          h2 \<leftarrow> GET s2 (list_slot s2 idx);
          PUT (prev_field h2) NULL s2
        } else do {
          h0 \<leftarrow> GET s (list_slot s idx);
          s1 \<leftarrow> PUT (next_field bp) h0 s;
          s2 \<leftarrow> PUT (prev_field bp) NULL s1;
          h1 \<leftarrow> GET s2 (list_slot s2 idx);
          s3 \<leftarrow> PUT (prev_field h1) bp s2;
          PUT (list_slot s3 idx) bp s3
        }
      })"

definition remove_free :: "addr \<Rightarrow> heap \<Rightarrow> heap option" where
  "remove_free bp s =
     do {
       sz \<leftarrow> GET_SIZE s (HDRP bp);
       let list = find_list sz;
       prv \<leftarrow> GET s (prev_field bp);
       if prv = NULL then do {
         nxt \<leftarrow> GET s (next_field bp);
         if nxt \<noteq> NULL then do {
           s1 \<leftarrow> PUT (prev_field nxt) NULL s;
           n1 \<leftarrow> GET s1 (next_field bp);
           PUT (list_slot s1 list) n1 s1
         } else PUT (list_slot s list) NULL s
       } else do {
         nxt \<leftarrow> GET s (next_field bp);
         if nxt = NULL then PUT (next_field prv) NULL s
         else do {
           s1 \<leftarrow> PUT (next_field prv) nxt s;
           n1 \<leftarrow> GET s1 (next_field bp);
           p1 \<leftarrow> GET s1 (prev_field bp);
           PUT (prev_field n1) p1 s1
         }
       }
     }"

subsection \<open>Initialisation\<close>

fun clear_lists :: "nat \<Rightarrow> nat \<Rightarrow> heap \<Rightarrow> heap option" where
  "clear_lists 0 i s = Some s"
| "clear_lists (Suc n) i s =
     do { s1 \<leftarrow> PUT (list_slot s i) NULL s; clear_lists n (Suc i) s1 }"

definition mm_init :: "heap \<Rightarrow> (int \<times> heap) option" where
  "mm_init s =
     (let (p, s0) = mem_sbrk (4 * WSIZE) s;
          s1 = s0\<lparr>heap_listp := p\<rparr>
      in if p = - 1 then Some (- 1, s1)
         else do {
           s2 \<leftarrow> PUT (heap_listp s1) 0 s1;
           s3 \<leftarrow> PUT (heap_listp s2 + 1 * WSIZE) (PACK DSIZE 1) s2;
           s4 \<leftarrow> PUT (heap_listp s3 + 2 * WSIZE) (PACK DSIZE 1) s3;
           s5 \<leftarrow> PUT (heap_listp s4 + 3 * WSIZE) (PACK 0 1) s4;
           let s6 = s5\<lparr>heap_listp := heap_listp s5 + 2 * WSIZE\<rparr>;
           let (startp, s7) = mem_sbrk (10 * WSIZE) s6;
           if startp = - 1 then Some (- 1, s7)
           else do {
             s8 \<leftarrow> PUT (HDRP startp) (PACK (10 * WSIZE) 1) s7;
             f \<leftarrow> FTRP s8 startp;
             s9 \<leftarrow> PUT f (PACK (10 * WSIZE) 1) s8;
             n \<leftarrow> NEXT_BLKP s9 startp;
             s10 \<leftarrow> PUT n (PACK 0 1) s9;
             let s11 = s10\<lparr>free_listp := startp\<rparr>;
             s12 \<leftarrow> clear_lists 8 0 s11;
             Some (0, s12)
           }
         })"

subsection \<open>The internal helper routines\<close>

definition coalesce :: "addr \<Rightarrow> heap \<Rightarrow> (addr \<times> heap) option" where
  "coalesce bp s =
     do {
       sz \<leftarrow> GET_SIZE s (HDRP bp);
       pb \<leftarrow> PREV_BLKP s bp;
       pa \<leftarrow> GET_ALLOC s (HDRP pb);
       nb \<leftarrow> NEXT_BLKP s bp;
       na \<leftarrow> GET_ALLOC s (HDRP nb);
       let prev_alloc = (pa \<noteq> 0);
       let next_alloc = (na \<noteq> 0);
       if prev_alloc \<and> next_alloc then do {
         s1 \<leftarrow> insert_free sz bp s;
         Some (bp, s1)
       } else if prev_alloc \<and> \<not> next_alloc then do {
         nb1 \<leftarrow> NEXT_BLKP s bp;
         s1 \<leftarrow> remove_free nb1 s;
         nb2 \<leftarrow> NEXT_BLKP s1 bp;
         ns \<leftarrow> GET_SIZE s1 (HDRP nb2);
         let sz = sz + ns;
         s2 \<leftarrow> PUT (HDRP bp) (PACK sz 0) s1;
         f \<leftarrow> FTRP s2 bp;
         s3 \<leftarrow> PUT f (PACK sz 0) s2;
         s4 \<leftarrow> insert_free sz bp s3;
         Some (bp, s4)
       } else if \<not> prev_alloc \<and> next_alloc then do {
         pb1 \<leftarrow> PREV_BLKP s bp;
         s1 \<leftarrow> remove_free pb1 s;
         pb2 \<leftarrow> PREV_BLKP s1 bp;
         ps \<leftarrow> GET_SIZE s1 (HDRP pb2);
         let sz = sz + ps;
         f \<leftarrow> FTRP s1 bp;
         s2 \<leftarrow> PUT f (PACK sz 0) s1;
         pb3 \<leftarrow> PREV_BLKP s2 bp;
         s3 \<leftarrow> PUT (HDRP pb3) (PACK sz 0) s2;
         bp' \<leftarrow> PREV_BLKP s3 bp;
         s4 \<leftarrow> insert_free sz bp' s3;
         Some (bp', s4)
       } else do {
         nb1 \<leftarrow> NEXT_BLKP s bp;
         s1 \<leftarrow> remove_free nb1 s;
         pb1 \<leftarrow> PREV_BLKP s1 bp;
         s2 \<leftarrow> remove_free pb1 s1;
         pb2 \<leftarrow> PREV_BLKP s2 bp;
         ps \<leftarrow> GET_SIZE s2 (HDRP pb2);
         nb2 \<leftarrow> NEXT_BLKP s2 bp;
         nf \<leftarrow> FTRP s2 nb2;
         ns \<leftarrow> GET_SIZE s2 nf;
         let sz = sz + (ps + ns);
         pb3 \<leftarrow> PREV_BLKP s2 bp;
         s3 \<leftarrow> PUT (HDRP pb3) (PACK sz 0) s2;
         nb3 \<leftarrow> NEXT_BLKP s3 bp;
         nf3 \<leftarrow> FTRP s3 nb3;
         s4 \<leftarrow> PUT nf3 (PACK sz 0) s3;
         bp' \<leftarrow> PREV_BLKP s4 bp;
         s5 \<leftarrow> insert_free sz bp' s4;
         Some (bp', s5)
       }
     }"

definition extend_heap :: "64 word \<Rightarrow> heap \<Rightarrow> (addr \<times> heap) option" where
  "extend_heap words s =
     (let sz = (if words mod 2 \<noteq> 0 then (words + 1) * WSIZE else words * WSIZE);
          (bp, s1) = mem_sbrk sz s
      in if bp = - 1 then Some (NULL, s1)
         else do {
           s2 \<leftarrow> PUT (HDRP bp) (PACK sz 0) s1;
           f \<leftarrow> FTRP s2 bp;
           s3 \<leftarrow> PUT f (PACK sz 0) s2;
           n \<leftarrow> NEXT_BLKP s3 bp;
           s4 \<leftarrow> PUT (HDRP n) (PACK 0 1) s3;
           Some (bp, s4)
         })"

text \<open>
  The earlier revision of the allocator among the sources (its \<open>coalesce\<close>,
  \<open>insert_free\<close>, \<open>remove_free\<close> and \<open>find_list\<close> are those of mm.c) ends
  \<open>extend_heap\<close> with \<open>return coalesce(bp)\<close>.
\<close>

definition extend_heap_part_001 :: "64 word \<Rightarrow> heap \<Rightarrow> (addr \<times> heap) option" where
  "extend_heap_part_001 words s =
     (let sz = (if words mod 2 \<noteq> 0 then (words + 1) * WSIZE else words * WSIZE);
          (bp, s1) = mem_sbrk sz s
      in if bp = - 1 then Some (NULL, s1)
         else do {
           s2 \<leftarrow> PUT (HDRP bp) (PACK sz 0) s1;
           f \<leftarrow> FTRP s2 bp;
           s3 \<leftarrow> PUT f (PACK sz 0) s2;
           n \<leftarrow> NEXT_BLKP s3 bp;
           s4 \<leftarrow> PUT (HDRP n) (PACK 0 1) s3;
           coalesce bp s4
         })"

text \<open>
  The inner \<open>for\<close> loop of \<open>find_fit\<close> follows \<open>next\<close> links until NULL; on a cyclic list
  it does not return, which is the value \<open>None\<close> here.
\<close>

partial_function (option) find_fit_scan :: "heap \<Rightarrow> 64 word \<Rightarrow> addr \<Rightarrow> addr option" where
  "find_fit_scan s asize current =
     (if current = NULL then Some NULL
      else do {
        sz \<leftarrow> GET_SIZE s (HDRP current);
        if asize \<le> sz then Some current
        else do {
          nxt \<leftarrow> GET s (next_field current);
          find_fit_scan s asize nxt
        }
      })"

declare find_fit_scan.simps [code]

function find_fit_from :: "heap \<Rightarrow> 64 word \<Rightarrow> nat \<Rightarrow> addr option" where
  "find_fit_from s asize idx =
     (if idx < 8 then
        (case GET s (list_slot s idx) of None \<Rightarrow> None
         | Some h \<Rightarrow>
            (case find_fit_scan s asize h of None \<Rightarrow> None
             | Some r \<Rightarrow> if r \<noteq> NULL then Some r else find_fit_from s asize (idx + 1)))
      else Some NULL)"
  by pat_completeness auto
termination
  by (relation "measure (\<lambda>(s, asize, idx). 8 - idx)") auto

definition find_fit :: "64 word \<Rightarrow> heap \<Rightarrow> addr option" where
  "find_fit asize s = find_fit_from s asize (find_list asize)"

definition place :: "addr \<Rightarrow> 64 word \<Rightarrow> bool \<Rightarrow> heap \<Rightarrow> heap option" where
  "place bp asize remove_flag s =
     do {
       csize \<leftarrow> GET_SIZE s (HDRP bp);
       s1 \<leftarrow> (if remove_flag then remove_free bp s else Some s);
       if 2 * DSIZE \<le> csize - asize then do {
         s2 \<leftarrow> PUT (HDRP bp) (PACK asize 1) s1;
         f \<leftarrow> FTRP s2 bp;
         s3 \<leftarrow> PUT f (PACK asize 1) s2;
         bp' \<leftarrow> NEXT_BLKP s3 bp;
         s4 \<leftarrow> PUT (HDRP bp') (PACK (csize - asize) 0) s3;
         f' \<leftarrow> FTRP s4 bp';
         s5 \<leftarrow> PUT f' (PACK (csize - asize) 0) s4;
         insert_free (csize - asize) bp' s5
       } else do {
         s2 \<leftarrow> PUT (HDRP bp) (PACK csize 1) s1;
         f \<leftarrow> FTRP s2 bp;
         PUT f (PACK csize 1) s2
       }
     }"

subsection \<open>The public interface\<close>

text \<open>
  The size adjustment is written twice in mm.c, in \<open>mm_malloc\<close> and in \<open>mm_realloc\<close>,
  with the same text; it is one function here.
\<close>

definition adjust :: "64 word \<Rightarrow> 64 word" where
  "adjust sz =
     (if sz \<le> DSIZE then 2 * DSIZE
      else DSIZE * ((sz + DSIZE + (DSIZE - 1)) div DSIZE))"

definition mm_malloc :: "64 word \<Rightarrow> heap \<Rightarrow> (addr \<times> heap) option" where
  "mm_malloc sz s =
     (if sz = 0 then Some (NULL, s)
      else
        let asize = adjust sz in
        if asize = failedsize s then do {
          (bp, s1) \<leftarrow> extend_heap (asize div WSIZE) s;
          if bp = NULL then Some (NULL, s1)
          else do { s2 \<leftarrow> place bp asize False s1; Some (bp, s2) }
        } else do {
          bp \<leftarrow> find_fit asize s;
          if bp \<noteq> NULL then do { s1 \<leftarrow> place bp asize True s; Some (bp, s1) }
          else do {
            let extendsize = asize;
            let s1 = s\<lparr>failedsize := asize\<rparr>;
            (bp, s2) \<leftarrow> extend_heap (extendsize div WSIZE) s1;
            if bp = NULL then Some (NULL, s2)
            else do { s3 \<leftarrow> place bp asize False s2; Some (bp, s3) }
          }
        })"

definition mm_free :: "addr \<Rightarrow> heap \<Rightarrow> heap option" where
  "mm_free bp s =
     (if bp = NULL then Some s
      else do {
        sz \<leftarrow> GET_SIZE s (HDRP bp);
        let s1 = (if sz = failedsize s then s\<lparr>failedsize := 0\<rparr> else s);
        s2 \<leftarrow> PUT (HDRP bp) (PACK sz 0) s1;
        f \<leftarrow> FTRP s2 bp;
        s3 \<leftarrow> PUT f (PACK sz 0) s2;
        (r, s4) \<leftarrow> coalesce bp s3;
        Some s4
      })"

text \<open>
  \<open>memcpy(dst, src, n)\<close> on word cells: the byte counts that \<open>mm_realloc\<close> passes are
  block sizes, multiples of DSIZE, so \<open>n div WSIZE\<close> whole words are copied, from the low
  address upwards.
\<close>

fun memcpy_words :: "nat \<Rightarrow> addr \<Rightarrow> addr \<Rightarrow> heap \<Rightarrow> heap option" where
  "memcpy_words 0 dst src s = Some s"
| "memcpy_words (Suc k) dst src s =
     do {
       v \<leftarrow> GET s src;
       s1 \<leftarrow> PUT dst v s;
       memcpy_words k (dst + WSIZE) (src + WSIZE) s1
     }"

definition memcpy :: "addr \<Rightarrow> addr \<Rightarrow> 64 word \<Rightarrow> heap \<Rightarrow> heap option" where
  "memcpy dst src n s = memcpy_words (unat (n div WSIZE)) dst src s"

definition mm_realloc :: "addr \<Rightarrow> 64 word \<Rightarrow> heap \<Rightarrow> (addr \<times> heap) option" where
  "mm_realloc ptr sz s =
     do {
       oldsize \<leftarrow> GET_SIZE s (HDRP ptr);
       let asize = adjust sz;
       if sz = 0 then do { s1 \<leftarrow> mm_free ptr s; Some (NULL, s1) }
       else if ptr = NULL then mm_malloc sz s
       else if asize \<le> oldsize then Some (ptr, s)
       else do {
         nb \<leftarrow> NEXT_BLKP s ptr;
         nsz \<leftarrow> GET_SIZE s (HDRP nb);
         if nsz = 0 then do {
           (r, s1) \<leftarrow> extend_heap ((asize - oldsize) div WSIZE) s;
           s2 \<leftarrow> PUT (HDRP ptr) (PACK asize 1) s1;
           f \<leftarrow> FTRP s2 ptr;
           s3 \<leftarrow> PUT f (PACK asize 1) s2;
           Some (ptr, s3)
         } else do {
           (newptr, s1) \<leftarrow> mm_malloc sz s;
           s2 \<leftarrow> memcpy newptr ptr oldsize s1;
           s3 \<leftarrow> mm_free ptr s2;
           Some (newptr, s3)
         }
       }
     }"

subsection \<open>Auxiliary notions for the statements\<close>

text \<open>The byte count that \<open>extend_heap\<close> requests for a number of words.\<close>

definition extend_size :: "64 word \<Rightarrow> 64 word" where
  "extend_size words = (if words mod 2 \<noteq> 0 then (words + 1) * WSIZE else words * WSIZE)"

text \<open>
  The relocation branch of \<open>mm_realloc\<close> with the number of bytes copied as a
  parameter: allocate, copy \<open>n\<close> bytes from the old payload, free the old block,
  return the new payload.
\<close>

definition relocate :: "64 word \<Rightarrow> addr \<Rightarrow> 64 word \<Rightarrow> heap \<Rightarrow> (addr \<times> heap) option" where
  "relocate n ptr sz s =
     do {
       (newptr, s1) \<leftarrow> mm_malloc sz s;
       s2 \<leftarrow> memcpy newptr ptr n s1;
       s3 \<leftarrow> mm_free ptr s2;
       Some (newptr, s3)
     }"

subsection \<open>Example arenas\<close>

text \<open>
  A fresh arena: a word cell, holding 0, at every multiple of 8 from \<open>lo\<close> up to \<open>hi\<close>,
  nothing allocated yet, the globals zero as C initialises them.
\<close>

definition fresh_arena :: "addr \<Rightarrow> addr \<Rightarrow> heap" where
  "fresh_arena lo hi =
     \<lparr>mem = (\<lambda>a. if lo \<le> a \<and> a < hi \<and> a AND 7 = 0 then Some 0 else None),
      free_listp = 0, heap_listp = 0, failedsize = 0, mem_brk = lo, mem_max_addr = hi\<rparr>"

text \<open>
  The arena from 0x1000 up to \<open>hi\<close> in a later state: the listed cells hold the listed
  words, every other cell 0; then the three globals and the end of the heap.
\<close>

definition heap_of ::
  "addr \<Rightarrow> (addr \<times> 64 word) list \<Rightarrow> addr \<Rightarrow> addr \<Rightarrow> 64 word \<Rightarrow> addr \<Rightarrow> heap" where
  "heap_of hi cells fl hl fs brk =
     \<lparr>mem = (\<lambda>a. if 0x1000 \<le> a \<and> a < hi \<and> a AND 7 = 0
                  then Some (case map_of cells a of Some v \<Rightarrow> v | None \<Rightarrow> 0) else None),
      free_listp = fl, heap_listp = hl, failedsize = fs, mem_brk = brk, mem_max_addr = hi\<rparr>"

text \<open>The heap that \<open>mm_init\<close> leaves on the fresh arena from 0x1000 to 0x2000.\<close>

definition heap_init :: heap where
  "heap_init =
     heap_of 0x2000 [(0x1008, 17), (0x1010, 17), (0x1018, 81), (0x1060, 81), (0x1070, 1)]
       0x1020 0x1010 0 0x1070"

text \<open>
  The heap after \<open>r = mm_malloc(200); q = mm_malloc(100); mm_free(r)\<close> on \<open>heap_init\<close>:
  a free block of 224 bytes at 0x1070 heads the list of class 2, the block of 128 bytes at
  0x1150 is allocated, and \<open>failedsize\<close> is 128.
\<close>

definition heap_miss :: heap where
  "heap_miss =
     heap_of 0x2000 [(0x1008, 17), (0x1010, 17), (0x1018, 81), (0x1030, 0x1070), (0x1060, 81),
                     (0x1068, 224), (0x1140, 224), (0x1148, 129), (0x11C0, 129), (0x11C8, 1)]
       0x1020 0x1010 128 0x11D0"

text \<open>
  The heap after \<open>mm_init(); p = mm_malloc(40)\<close> on the arena from 0x1000 to 0x10B0: the
  block of 64 bytes at \<open>p = 0x1070\<close> is the last one and the arena is used up.
\<close>

definition heap_full :: heap where
  "heap_full =
     heap_of 0x10B0 [(0x1008, 17), (0x1010, 17), (0x1018, 81), (0x1060, 81), (0x1068, 65),
                     (0x1070, 1), (0x10A0, 65), (0x10A8, 1)]
       0x1020 0x1010 64 0x10B0"

text \<open>
  The heap after \<open>p = mm_malloc(40); mm_free(p)\<close> on \<open>heap_init\<close>: the last block, of 64
  bytes at 0x1070, is free and heads the list of class 0.
\<close>

definition heap_tailfree :: heap where
  "heap_tailfree =
     heap_of 0x2000 [(0x1008, 17), (0x1010, 17), (0x1018, 81), (0x1020, 0x1070), (0x1060, 81),
                     (0x1068, 64), (0x10A0, 64), (0x10A8, 1)]
       0x1020 0x1010 0 0x10B0"

text \<open>
  The heap after \<open>p = mm_malloc(40); q = mm_malloc(40)\<close> on \<open>heap_init\<close>: two allocated
  blocks of 64 bytes, \<open>p = 0x1070\<close> and \<open>q = 0x10B0\<close>.
\<close>

definition heap_pq :: heap where
  "heap_pq =
     heap_of 0x2000 [(0x1008, 17), (0x1010, 17), (0x1018, 81), (0x1060, 81), (0x1068, 65),
                     (0x1070, 1), (0x10A0, 65), (0x10A8, 65), (0x10E0, 65), (0x10E8, 1)]
       0x1020 0x1010 64 0x10F0"

text \<open>The heap after a further \<open>mm_malloc(100)\<close> on \<open>heap_pq\<close>, which returns 0x10F0.\<close>

definition heap_pq_alloc :: heap where
  "heap_pq_alloc =
     heap_of 0x2000 [(0x1008, 17), (0x1010, 17), (0x1018, 81), (0x1060, 81), (0x1068, 65),
                     (0x1070, 1), (0x10A0, 65), (0x10A8, 65), (0x10E0, 65), (0x10E8, 129),
                     (0x1160, 129), (0x1168, 1)]
       0x1020 0x1010 128 0x1170"

subsection \<open>Free lists as lists\<close>

text \<open>
  \<open>fl_chain s p bs\<close>: starting at the pointer \<open>p\<close>, the \<open>next\<close> links of the heap \<open>s\<close> run
  through the blocks \<open>bs\<close>, in this order, and end with NULL; every block of the chain
  has a header word. \<open>block_fits\<close> is the test of \<open>find_fit\<close>'s inner loop, and
  \<open>first_fit\<close> the first block of a list that passes it, or NULL.
\<close>

fun fl_chain :: "heap \<Rightarrow> addr \<Rightarrow> addr list \<Rightarrow> bool" where
  "fl_chain s p [] \<longleftrightarrow> p = NULL"
| "fl_chain s p (b # bs) \<longleftrightarrow>
     p = b \<and> b \<noteq> NULL \<and>
     (case mem s (HDRP b) of None \<Rightarrow> False
      | Some h \<Rightarrow> (case mem s (next_field b) of None \<Rightarrow> False | Some n \<Rightarrow> fl_chain s n bs))"

definition block_fits :: "heap \<Rightarrow> 64 word \<Rightarrow> addr \<Rightarrow> bool" where
  "block_fits s asize b = (case GET_SIZE s (HDRP b) of None \<Rightarrow> False | Some z \<Rightarrow> asize \<le> z)"

definition first_fit :: "heap \<Rightarrow> 64 word \<Rightarrow> addr list \<Rightarrow> addr" where
  "first_fit s asize bs = (case find (block_fits s asize) bs of None \<Rightarrow> NULL | Some b \<Rightarrow> b)"

text \<open>
  The heap after \<open>x = mm_malloc(60); g = mm_malloc(40); y = mm_malloc(100); h = mm_malloc(40);
  mm_free(y); mm_free(x)\<close> on \<open>heap_init\<close>: the list of class 1 holds the free blocks
  \<open>x = 0x1070\<close>, of 80 bytes, and then \<open>y = 0x1100\<close>, of 128 bytes; the other lists are empty.
\<close>

definition heap_two :: heap where
  "heap_two =
     heap_of 0x2000 [(0x1008, 17), (0x1010, 17), (0x1018, 81), (0x1028, 0x1070), (0x1060, 81),
                     (0x1068, 80), (0x1078, 0x1100), (0x10B0, 80), (0x10B8, 65), (0x10F0, 65),
                     (0x10F8, 128), (0x1100, 0x1070), (0x1170, 128), (0x1178, 65), (0x11B0, 65),
                     (0x11B8, 1)]
       0x1020 0x1010 64 0x11C0"

subsection \<open>The cells of the free lists\<close>

text \<open>
  The words that \<open>insert_free\<close> and \<open>remove_free\<close> read and write are the eight entries
  of the head array and the two link fields of the blocks that the lists mention.
  \<open>fl_inv s F\<close> says of a set \<open>F\<close> of block pointers that these words exist and lie
  apart (no link field is an entry of the array, no \<open>next\<close> field is the \<open>prev\<close> field of
  another block of \<open>F\<close>), that every block of \<open>F\<close> has a header word, and that all
  pointers found in the array and in the link fields of \<open>F\<close> are NULL or in \<open>F\<close>.
  \<open>fl_new s F b\<close> says the same of the addresses of a block \<open>b\<close> that is about to be
  inserted; its link fields may hold anything. \<open>heap_frame C s s'\<close>: the state \<open>s'\<close>
  differs from \<open>s\<close> at most in the contents of the cells in \<open>C\<close>. \<open>cells_ok G C m\<close>: in
  the store \<open>m\<close> every cell of \<open>C\<close> holds NULL or a pointer of \<open>G\<close>.
\<close>

definition slots :: "heap \<Rightarrow> addr set" where
  "slots s = list_slot s ` {..<8}"

definition fl_cells :: "heap \<Rightarrow> addr set \<Rightarrow> addr set" where
  "fl_cells s F = slots s \<union> prev_field ` F \<union> next_field ` F"

definition fl_inv :: "heap \<Rightarrow> addr set \<Rightarrow> bool" where
  "fl_inv s F \<longleftrightarrow>
     NULL \<notin> F
     \<and> (\<forall>k<8. \<exists>h. mem s (list_slot s k) = Some h \<and> (h = NULL \<or> h \<in> F))
     \<and> (\<forall>b\<in>F. mem s (HDRP b) \<noteq> None
            \<and> (\<exists>p. mem s (prev_field b) = Some p \<and> (p = NULL \<or> p \<in> F))
            \<and> (\<exists>n. mem s (next_field b) = Some n \<and> (n = NULL \<or> n \<in> F))
            \<and> prev_field b \<notin> slots s \<and> next_field b \<notin> slots s \<and> next_field b \<notin> F)"

definition fl_new :: "heap \<Rightarrow> addr set \<Rightarrow> addr \<Rightarrow> bool" where
  "fl_new s F b \<longleftrightarrow>
     b \<noteq> NULL \<and> mem s (HDRP b) \<noteq> None \<and> mem s (prev_field b) \<noteq> None
     \<and> mem s (next_field b) \<noteq> None
     \<and> prev_field b \<notin> slots s \<and> next_field b \<notin> slots s
     \<and> next_field b \<notin> F \<and> prev_field b \<notin> next_field ` F"

definition heap_frame :: "addr set \<Rightarrow> heap \<Rightarrow> heap \<Rightarrow> bool" where
  "heap_frame C s s' \<longleftrightarrow>
     free_listp s' = free_listp s \<and> heap_listp s' = heap_listp s \<and> failedsize s' = failedsize s
     \<and> mem_brk s' = mem_brk s \<and> mem_max_addr s' = mem_max_addr s
     \<and> (\<forall>a. (mem s' a = None) = (mem s a = None))
     \<and> (\<forall>a. a \<notin> C \<longrightarrow> mem s' a = mem s a)"

definition cells_ok :: "addr set \<Rightarrow> addr set \<Rightarrow> (addr \<Rightarrow> 64 word option) \<Rightarrow> bool" where
  "cells_ok G C m \<longleftrightarrow> (\<forall>a\<in>C. \<exists>v. m a = Some v \<and> (v = NULL \<or> v \<in> G))"

text \<open>The head of every list is NULL, or a block whose \<open>prev\<close> link is NULL.\<close>

definition heads_prev_null :: "heap \<Rightarrow> bool" where
  "heads_prev_null s \<longleftrightarrow>
     (\<forall>k<8. \<exists>h. mem s (list_slot s k) = Some h \<and> (h = NULL \<or> mem s (prev_field h) = Some NULL))"

subsection \<open>Boundary tags of a block\<close>

text \<open>
  \<open>free_tags s b n\<close>: the header and the footer of the block at \<open>b\<close> both hold size \<open>n\<close>
  and alloc bit 0. \<open>tags s b\<close> are the addresses of these two words. \<open>merged b n s\<close> is
  the heap in which the header and the footer of a block of size \<open>n\<close> at \<open>b\<close> have been
  written as free.
\<close>

definition free_tags :: "heap \<Rightarrow> addr \<Rightarrow> 64 word \<Rightarrow> bool" where
  "free_tags s b n \<longleftrightarrow> GET_SIZE s (HDRP b) = Some n \<and> GET_ALLOC s (HDRP b) = Some 0
     \<and> FTRP s b = Some (b + n - DSIZE)
     \<and> GET_SIZE s (b + n - DSIZE) = Some n \<and> GET_ALLOC s (b + n - DSIZE) = Some 0"

definition tags :: "heap \<Rightarrow> addr \<Rightarrow> addr set" where
  "tags s b = insert (HDRP b) (set_option (FTRP s b))"

definition merged :: "addr \<Rightarrow> 64 word \<Rightarrow> heap \<Rightarrow> heap" where
  "merged b n s = s\<lparr>mem := (mem s)(HDRP b \<mapsto> PACK n 0, b + n - DSIZE \<mapsto> PACK n 0)\<rparr>"

text \<open>
  An arena laid out as \<open>mm_init\<close> leaves it, followed by eleven blocks of 32 bytes and the
  epilogue. Four blocks are listed in class 0, in the order 0x11B0, 0x1170, 0x1110, 0x10D0.
  Four blocks are marked free and not listed, one for each combination of neighbours:
  0x1070 (both allocated), 0x10B0 (next free), 0x1130 (previous free), 0x1190 (both free).
\<close>

definition heap_four :: heap where
  "heap_four =
     heap_of 0x2000
       [(0x1008, 17), (0x1010, 17), (0x1018, 81), (0x1020, 0x11B0), (0x1060, 81),
        (0x1068, 32), (0x1080, 32),
        (0x1088, 33), (0x10A0, 33),
        (0x10A8, 32), (0x10C0, 32),
        (0x10C8, 32), (0x10D0, 0x1110), (0x10D8, 0), (0x10E0, 32),
        (0x10E8, 33), (0x1100, 33),
        (0x1108, 32), (0x1110, 0x1170), (0x1118, 0x10D0), (0x1120, 32),
        (0x1128, 32), (0x1140, 32),
        (0x1148, 33), (0x1160, 33),
        (0x1168, 32), (0x1170, 0x11B0), (0x1178, 0x1110), (0x1180, 32),
        (0x1188, 32), (0x11A0, 32),
        (0x11A8, 32), (0x11B0, 0), (0x11B8, 0x1170), (0x11C0, 32),
        (0x11C8, 1)]
       0x1020 0x1010 0 0x11D0"

subsection \<open>The free lists as doubly linked lists\<close>

text \<open>
  The pointers of the lists read off the heap: the head of class \<open>k\<close>, the two links of a
  block, and the class that the header of a block gives (the class in which \<open>remove_free\<close>
  looks for it).
\<close>

definition word_at :: "heap \<Rightarrow> addr \<Rightarrow> 64 word" where
  "word_at s a = (case mem s a of Some v \<Rightarrow> v | None \<Rightarrow> 0)"

definition head_of :: "heap \<Rightarrow> nat \<Rightarrow> addr" where
  "head_of s k = word_at s (list_slot s k)"

definition prev_of :: "heap \<Rightarrow> addr \<Rightarrow> addr" where
  "prev_of s b = word_at s (prev_field b)"

definition next_of :: "heap \<Rightarrow> addr \<Rightarrow> addr" where
  "next_of s b = word_at s (next_field b)"

definition class_of :: "heap \<Rightarrow> addr \<Rightarrow> nat" where
  "class_of s b = find_list (word_at s (HDRP b) AND NOT (DSIZE - 1))"

text \<open>
  \<open>dll F H P N C\<close>: the heads \<open>H\<close>, the links \<open>P\<close> (prev) and \<open>N\<close> (next) and the classes
  \<open>C\<close> make the blocks of \<open>F\<close> doubly linked lists, one for each class. All pointers are
  NULL or in \<open>F\<close>; \<open>c\<close> is the successor of \<open>b\<close> exactly when \<open>b\<close> is the predecessor of
  \<open>c\<close>; a block is the head of a class exactly when its \<open>prev\<close> link is NULL and the class
  is its own; a block and its successor have the same class. So every block of \<open>F\<close> is
  on the list of its class, and a block outside \<open>F\<close> is pointed to by no head and by no
  link of a block of \<open>F\<close>.
\<close>

definition dll ::
  "addr set \<Rightarrow> (nat \<Rightarrow> addr) \<Rightarrow> (addr \<Rightarrow> addr) \<Rightarrow> (addr \<Rightarrow> addr) \<Rightarrow> (addr \<Rightarrow> nat) \<Rightarrow> bool" where
  "dll F H P N C \<longleftrightarrow> NULL \<notin> F
     \<and> (\<forall>k<8. H k = NULL \<or> H k \<in> F)
     \<and> (\<forall>b\<in>F. (P b = NULL \<or> P b \<in> F) \<and> (N b = NULL \<or> N b \<in> F) \<and> C b < 8)
     \<and> (\<forall>b\<in>F. \<forall>c\<in>F. (N c = b) = (P b = c))
     \<and> (\<forall>b\<in>F. \<forall>k<8. (H k = b) = (P b = NULL \<and> k = C b))
     \<and> (\<forall>b\<in>F. \<forall>c\<in>F. N c = b \<longrightarrow> C b = C c)"

text \<open>
  \<open>lists_ok s F\<close>: the cells of the lists exist and lie apart (\<open>fl_inv\<close>), no header of a
  listed block is a cell of the lists, and the pointers found in the heap make \<open>F\<close> doubly
  linked lists.
\<close>

definition lists_ok :: "heap \<Rightarrow> addr set \<Rightarrow> bool" where
  "lists_ok s F \<longleftrightarrow> fl_inv s F \<and> (\<forall>b\<in>F. HDRP b \<notin> fl_cells s F)
     \<and> dll F (head_of s) (prev_of s) (next_of s) (class_of s)"

subsection \<open>The surroundings of a block that is freed\<close>

text \<open>
  \<open>block_env s F bp sz pb pa psz nb na nsz\<close>: what \<open>mm_free\<close> and \<open>coalesce\<close> rely on when
  the block \<open>bp\<close> of size \<open>sz\<close> is freed. The listed blocks \<open>F\<close> are doubly linked lists
  and \<open>bp\<close> is not among them; the words of \<open>bp\<close> that will be written exist; \<open>pb\<close> and
  \<open>nb\<close> are the neighbours, with alloc bits \<open>pa\<close> and \<open>na\<close>; the boundary tags of the three
  blocks are not cells of the lists and no header of a listed block is a footer or a link
  word that will be written; the addresses increase; a free neighbour is a listed block
  with matching header and footer, of size \<open>psz\<close> or \<open>nsz\<close>. \<open>env_cells\<close> are the cells that
  these conditions read.
\<close>

definition block_env ::
  "heap \<Rightarrow> addr set \<Rightarrow> addr \<Rightarrow> 64 word \<Rightarrow> addr \<Rightarrow> 64 word \<Rightarrow> 64 word \<Rightarrow> addr \<Rightarrow> 64 word \<Rightarrow> 64 word \<Rightarrow> bool" where
  "block_env s F bp sz pb pa psz nb na nsz \<longleftrightarrow>
     lists_ok s F \<and> fl_new s F bp \<and> bp \<notin> F
     \<and> GET_SIZE s (HDRP bp) = Some sz \<and> mem s (bp + sz - DSIZE) \<noteq> None
     \<and> PREV_BLKP s bp = Some pb \<and> GET_ALLOC s (HDRP pb) = Some pa
     \<and> NEXT_BLKP s bp = Some nb \<and> GET_ALLOC s (HDRP nb) = Some na
     \<and> (tags s bp \<union> tags s pb \<union> tags s nb) \<inter> fl_cells s (insert bp F) = {}
     \<and> (\<forall>c\<in>F. HDRP c \<notin> set_option (FTRP s bp) \<union> set_option (FTRP s nb)
                          \<union> {prev_field bp, next_field bp})
     \<and> pb < bp \<and> bp < nb
     \<and> (pa = 0 \<longrightarrow> pb \<in> F \<and> free_tags s pb psz \<and> NEXT_BLKP s pb = Some bp)
     \<and> (na = 0 \<longrightarrow> nb \<in> F \<and> free_tags s nb nsz \<and> nb < nb + nsz)"

definition env_cells :: "heap \<Rightarrow> addr set \<Rightarrow> addr \<Rightarrow> addr \<Rightarrow> addr \<Rightarrow> addr set" where
  "env_cells s F bp pb nb =
     fl_cells s (insert bp F) \<union> HDRP ` F \<union> tags s bp \<union> tags s pb \<union> tags s nb \<union> {bp - DSIZE}"

text \<open>
  The outcome of the four-case table: the block that \<open>coalesce\<close> returns, its size, and the
  listed blocks afterwards.
\<close>

definition coalesced_block :: "64 word \<Rightarrow> addr \<Rightarrow> addr \<Rightarrow> addr" where
  "coalesced_block pa bp pb = (if pa = 0 then pb else bp)"

definition coalesced_size :: "64 word \<Rightarrow> 64 word \<Rightarrow> 64 word \<Rightarrow> 64 word \<Rightarrow> 64 word \<Rightarrow> 64 word" where
  "coalesced_size pa na sz psz nsz =
     (if pa \<noteq> 0 then (if na \<noteq> 0 then sz else sz + nsz)
      else (if na \<noteq> 0 then sz + psz else sz + (psz + nsz)))"

definition coalesced_set :: "64 word \<Rightarrow> 64 word \<Rightarrow> addr \<Rightarrow> addr \<Rightarrow> addr \<Rightarrow> addr set \<Rightarrow> addr set" where
  "coalesced_set pa na bp pb nb F =
     insert (coalesced_block pa bp pb)
       (F - (if pa = 0 then {pb} else {}) - (if na = 0 then {nb} else {}))"

text \<open>The cells \<open>a\<close>, \<open>a + 8\<close>, ... of \<open>n\<close> consecutive words.\<close>

definition word_cells :: "addr \<Rightarrow> nat \<Rightarrow> addr set" where
  "word_cells a n = (\<lambda>k. a + 8 * of_nat k) ` {..<n}"

text \<open>
  The heaps after each call of \<open>p = mm_malloc(50); mm_free(p);
  q = mm_malloc(0xFFFFFFFFFFFFFFE1); mm_free(q); mm_malloc(50); r = mm_malloc(1); mm_free(r)\<close>
  on \<open>heap_init\<close>. The second request is adjusted to 0, which is the value of
  \<open>failedsize\<close> after the first \<open>mm_free\<close>: \<open>q = 0x10C0\<close> is a block of size 0 at the end of
  the heap, and freeing it puts it at the head of class 0. The last request extends the
  heap at the same address, so that \<open>r = q\<close> is allocated while it heads class 0, and
  freeing it inserts it in front of itself.
\<close>

definition heap_t1 :: heap where
  "heap_t1 =
     heap_of 0x2000 [(0x1008, 17), (0x1010, 17), (0x1018, 81), (0x1060, 81), (0x1068, 81),
                     (0x1070, 1), (0x10B0, 81), (0x10B8, 1)]
       0x1020 0x1010 80 0x10C0"

definition heap_t2 :: heap where
  "heap_t2 =
     heap_of 0x2000 [(0x1008, 17), (0x1010, 17), (0x1018, 81), (0x1028, 0x1070), (0x1060, 81),
                     (0x1068, 80), (0x10B0, 80), (0x10B8, 1)]
       0x1020 0x1010 0 0x10C0"

definition heap_t3 :: heap where
  "heap_t3 =
     heap_of 0x2000 [(0x1008, 17), (0x1010, 17), (0x1018, 81), (0x1028, 0x1070), (0x1060, 81),
                     (0x1068, 80), (0x10B0, 1), (0x10B8, 1)]
       0x1020 0x1010 0 0x10C0"

definition heap_t4 :: heap where
  "heap_t4 =
     heap_of 0x2000 [(0x1008, 17), (0x1010, 17), (0x1018, 81), (0x1020, 0x10C0),
                     (0x1028, 0x1070), (0x1060, 81), (0x1068, 80)]
       0x1020 0x1010 0 0x10C0"

definition heap_t5 :: heap where
  "heap_t5 =
     heap_of 0x2000 [(0x1008, 17), (0x1010, 17), (0x1018, 81), (0x1020, 0x10C0), (0x1060, 81),
                     (0x1068, 81), (0x10B0, 81)]
       0x1020 0x1010 0 0x10C0"

definition heap_t6 :: heap where
  "heap_t6 =
     heap_of 0x2000 [(0x1008, 17), (0x1010, 17), (0x1018, 81), (0x1020, 0x10C0), (0x1060, 81),
                     (0x1068, 81), (0x10B0, 81), (0x10B8, 33), (0x10D0, 33), (0x10D8, 1)]
       0x1020 0x1010 32 0x10E0"

definition heap_t7 :: heap where
  "heap_t7 =
     heap_of 0x2000 [(0x1008, 17), (0x1010, 17), (0x1018, 81), (0x1020, 0x10C0), (0x1060, 81),
                     (0x1068, 81), (0x10B0, 81), (0x10B8, 32), (0x10C0, 0x10C0),
                     (0x10C8, 0x10C0), (0x10D0, 32), (0x10D8, 1)]
       0x1020 0x1010 0 0x10E0"

section \<open>Block sizes as words\<close>

lemma n15: "NOT (15 :: 64 word) = NOT (mask 4)" by (simp add: mask_eq_exp_minus_1)
lemma m15: "(15 :: 64 word) = mask 4" by (simp add: mask_eq_exp_minus_1)

lemma and15_mod: "(x :: 64 word) AND 15 = x mod 16"
  unfolding m15 by (simp add: take_bit_eq_mask[symmetric] take_bit_eq_mod)

lemma and15_bits: "((x :: 64 word) AND 15 = 0) = (\<forall>n<4. \<not> bit x n)"
  unfolding m15 by (simp add: bit_eq_iff bit_simps) (meson less_trans numeral_less_iff semiring_norm(76,78) bit_imp_le_length not_less)

lemma size_pack1: "(x :: 64 word) AND 15 = 0 \<Longrightarrow> (x OR 1) AND NOT 15 = x"
  unfolding n15 and15_bits
  by (rule bit_word_eqI) (auto simp: bit_simps)

lemma alloc_pack0: assumes "(x :: 64 word) AND 15 = 0" shows "x AND 1 = 0"
proof -
  from assms have "\<not> bit x 0"
    unfolding and15_bits by simp
  then have "even x"
    by (simp add: bit_0)
  then show ?thesis
    by (simp add: and_one_eq even_iff_mod_2_eq_zero)
qed

lemma alloc_pack1: "((x :: 64 word) OR 1) AND 1 = 1"
  by (rule bit_word_eqI) (auto simp: bit_simps)

lemma getsize_mult: "((x :: 64 word) AND NOT 15) AND 15 = 0"
  unfolding n15 m15
  by (rule bit_word_eqI) (auto simp: bit_simps)

lemma size_clear: "(x :: 64 word) AND 15 = 0 \<Longrightarrow> x AND NOT 15 = x"
  unfolding n15 and15_bits
  by (rule bit_word_eqI) (auto simp: bit_simps)

lemma and15_unat: "((x :: 64 word) AND 15 = 0) = (unat x mod 16 = 0)"
proof -
  have "unat (x mod 16) = unat x mod 16"
    by (simp add: unat_mod)
  then show ?thesis
    unfolding and15_mod by (metis unat_eq_0)
qed

lemma and15_dvd: "((x :: 64 word) AND 15 = 0) = (16 dvd unat x)"
  unfolding and15_unat by (simp add: dvd_eq_mod_eq_0)

lemma add_mult16: "(x :: 64 word) AND 15 = 0 \<Longrightarrow> y AND 15 = 0 \<Longrightarrow> (x + y) AND 15 = 0"
proof -
  assume "x AND 15 = 0" "y AND 15 = 0"
  then have "(2 :: 64 word) ^ 4 dvd x" "(2 :: 64 word) ^ 4 dvd y"
    unfolding m15 by (simp_all add: take_bit_eq_mask[symmetric] take_bit_eq_0_iff)
  then have "(2 :: 64 word) ^ 4 dvd x + y" by (rule dvd_add)
  then show ?thesis
    unfolding m15 by (simp add: take_bit_eq_mask[symmetric] take_bit_eq_0_iff)
qed

lemma div8_even: assumes "(x :: 64 word) AND 15 = 0" shows "x div 8 mod 2 = 0"
proof -
  from assms obtain k where k: "unat x = 16 * k"
    unfolding and15_dvd by (auto simp: dvd_def)
  have "unat (x div 8 mod 2) = (unat x div 8) mod 2"
    by (simp add: unat_mod unat_div)
  also have "\<dots> = 0" unfolding k by simp
  finally show ?thesis by (simp only: unat_eq_0)
qed

lemma div8_mul8: assumes "(x :: 64 word) AND 15 = 0" shows "x div 8 * 8 = x"
proof -
  from assms obtain k where k: "unat x = 16 * k"
    unfolding and15_dvd by (auto simp: dvd_def)
  have a: "unat (x div 8) = 2 * k"
    by (simp add: unat_div k)
  have "unat (x div 8 * 8) = (2 * k * 8) mod 2 ^ 64"
    by (simp add: unat_word_ariths(2) a)
  also have "2 * k * 8 = unat x" unfolding k by simp
  also have "unat x mod 2 ^ 64 = unat x"
    using unsigned_less [of x, where 'a = nat] by simp
  finally show ?thesis by (simp only: word_unat_eq_iff)
qed

section \<open>Executing the model\<close>

lemma PUT_mapped: "mem s p \<noteq> None \<Longrightarrow> PUT p v s = Some (s\<lparr>mem := (mem s)(p \<mapsto> v)\<rparr>)"
  by (auto simp: PUT_def)

lemma PUT_unmapped: "mem s p = None \<Longrightarrow> PUT p v s = None"
  by (simp add: PUT_def)

lemmas exec_simps = GET_def GET_SIZE_def GET_ALLOC_def HDRP_def FTRP_def NEXT_BLKP_def
  PREV_BLKP_def PACK_def PUT_mapped prev_field_def next_field_def

lemma clear_lists_numeral:
  "clear_lists (numeral k) i s =
     PUT (list_slot s i) NULL s \<bind> clear_lists (pred_numeral k) (Suc i)"
  by (simp add: numeral_eq_Suc)

lemmas run_simps = exec_simps mem_sbrk_def fresh_arena_def list_slot_def Let_def heap_of_def

lemma heap_eqI:
  "mem a = mem b \<Longrightarrow> free_listp a = free_listp b \<Longrightarrow> heap_listp a = heap_listp b \<Longrightarrow>
   failedsize a = failedsize b \<Longrightarrow> mem_brk a = mem_brk b \<Longrightarrow> mem_max_addr a = mem_max_addr b \<Longrightarrow>
   a = (b :: heap)"
  by simp

lemma heap_init_reached: "mm_init (fresh_arena 0x1000 0x2000) = Some (0, heap_init)"
  unfolding heap_init_def
  by (simp add: mm_init_def run_simps clear_lists_numeral) (auto simp: fun_eq_iff)

section \<open>Size adjustment\<close>

lemma adjust_in_range:
  assumes "unat sz + 31 < 2 ^ 64"
  shows "unat (adjust sz) = (if unat sz \<le> 16 then 32 else 16 * ((unat sz + 16 + 15) div 16))"
proof (cases "sz \<le> 16")
  case True
  then have "unat sz \<le> 16"
    by (simp add: word_le_nat_alt)
  moreover have "adjust sz = 32"
    using True by (simp add: adjust_def)
  ultimately show ?thesis
    by simp
next
  case False
  then have big: "\<not> unat sz \<le> 16"
    by (simp add: word_le_nat_alt)
  have a: "unat (sz + 31) = unat sz + 31"
    using assms by (simp add: unat_word_ariths)
  have b: "unat ((sz + 31) div 16) = (unat sz + 31) div 16"
    by (simp add: unat_div a)
  have c: "16 * ((unat sz + 31) div 16) < 2 ^ 64"
    using assms by simp
  have d: "unat (16 * ((sz + 31) div 16)) = 16 * ((unat sz + 31) div 16)"
    using b c by (simp add: unat_word_ariths)
  have e: "adjust sz = 16 * ((sz + 31) div 16)"
    using False by (simp add: adjust_def add.commute)
  show ?thesis
    unfolding e d using big by (simp add: add.commute)
qed

lemma mult16_and15: "(16 * (x :: 64 word)) AND 15 = 0"
proof -
  have "16 * x = push_bit 4 x" by (simp add: push_bit_eq_mult)
  moreover have "(15 :: 64 word) = mask 4" by (simp add: mask_eq_exp_minus_1)
  ultimately show ?thesis
    by (simp only: and.commute[of _ "mask 4"] flip: take_bit_eq_mask) (simp add: take_bit_push_bit)
qed

lemma adjust_mult16: "adjust sz AND 15 = 0"
  using mult16_and15 by (simp add: adjust_def)

lemma adjust_small: "adjust 1 = 32" "adjust 15 = 32" "adjust 16 = 32" "adjust 17 = 48"
  by (simp_all add: adjust_def)

text \<open>
  C8. The adjusted size is \<open>2 * DSIZE\<close> for requests up to DSIZE and DSIZE times the
  ceiling of \<open>(size + DSIZE) / DSIZE\<close> above (\<open>adjust_in_range\<close>), as long as
  \<open>size + 2 * DSIZE - 1\<close> fits \<open>size_t\<close>. For the 31 largest requests the sum wraps:
  a request of \<open>SIZE_MAX\<close> bytes is adjusted to 16, below the minimum block size and
  not the rounded-up request.
\<close>

theorem adjust_wraps_at_size_max:
  "adjust 0xFFFFFFFFFFFFFFFF = DSIZE \<and> adjust 0xFFFFFFFFFFFFFFFF < 2 * DSIZE \<and>
   unat (adjust 0xFFFFFFFFFFFFFFFF)
     \<noteq> 16 * ((unat (0xFFFFFFFFFFFFFFFF :: 64 word) + 16 + 15) div 16)"
  by (simp add: adjust_def)

section \<open>Initialisation\<close>

text \<open>
  C3. On a fresh arena \<open>mm_init\<close> succeeds and leaves the prologue header and footer
  as (DSIZE, allocated). The word (0, allocated) that is meant as the epilogue header is
  written at \<open>NEXT_BLKP(startp)\<close>, the first address past the heap, and not at
  \<open>HDRP(NEXT_BLKP(startp))\<close>: the epilogue header position keeps what the arena held.
\<close>

theorem mm_init_epilogue_misplaced:
  "(case mm_init (fresh_arena 0x1000 0x2000) of None \<Rightarrow> False
    | Some (r, s) \<Rightarrow>
        r = 0 \<and> GET s (HDRP (heap_listp s)) = Some (PACK DSIZE 1)
        \<and> FTRP s (heap_listp s) = Some (heap_listp s)
        \<and> GET s (heap_listp s) = Some (PACK DSIZE 1)
        \<and> (case NEXT_BLKP s (free_listp s) of None \<Rightarrow> False
            | Some n \<Rightarrow> n = mem_brk s \<and> GET s (HDRP n) = Some 0
                \<and> GET_ALLOC s (HDRP n) = Some 0 \<and> GET s n = Some (PACK 0 1)))"
  unfolding heap_init_reached by (simp add: heap_init_def run_simps)

section \<open>Reallocation of the null pointer\<close>

lemma mm_realloc_NULL:
  "mm_realloc NULL sz s = (if mem s (HDRP NULL) = None then None else mm_malloc sz s)"
  by (auto simp: mm_realloc_def mm_malloc_def mm_free_def GET_SIZE_def GET_def)

text \<open>
  C1. \<open>mm_realloc\<close> reads the header of \<open>ptr\<close> in its first statement, before it tests
  \<open>ptr\<close> against NULL. With \<open>ptr = NULL\<close> that is a read of the word at
  \<open>NULL - WSIZE\<close>; where no such word exists the call has no result, while
  \<open>mm_malloc\<close> on the same heap returns a block.
\<close>

theorem mm_realloc_null_reads_header:
  "mem heap_init (HDRP NULL) = None \<and> mm_realloc NULL 40 heap_init = None
   \<and> map_option fst (mm_malloc 40 heap_init) = Some 0x1070"
proof -
  have a: "mem heap_init (HDRP NULL) = None"
    by (simp add: heap_init_def run_simps)
  have b: "map_option fst (mm_malloc 40 heap_init) = Some 0x1070"
    by (simp add: heap_init_def mm_malloc_def adjust_def find_fit_def find_list_def
          find_fit_scan.simps extend_heap_def place_def run_simps)
  show ?thesis
    unfolding mm_realloc_NULL using a b by simp
qed

section \<open>Extension and placement\<close>

lemmas op_defs = mm_malloc_def mm_free_def mm_realloc_def adjust_def find_fit_def find_list_def
  find_fit_scan.simps extend_heap_def place_def coalesce_def insert_free_def remove_free_def
  memcpy_def

lemma extend_size_mult16: "extend_size words AND 15 = 0"
proof -
  have ev: "\<And>w :: 64 word. even w \<Longrightarrow> (w * 8) AND 15 = 0"
  proof -
    fix w :: "64 word"
    assume "even w"
    then obtain k where "w = 2 * k" by (auto elim: evenE)
    then have "w * 8 = 16 * k" by simp
    then show "(w * 8) AND 15 = 0" by (simp only: mult16_and15)
  qed
  show ?thesis
  proof (cases "words mod 2 = 0")
    case True
    then have "even words" by (simp add: even_iff_mod_2_eq_zero)
    then show ?thesis using True ev by (simp add: extend_size_def)
  next
    case False
    then have "odd words" by (simp add: even_iff_mod_2_eq_zero)
    then have "even (words + 1)" by simp
    then have "((words + 1) * 8) AND 15 = 0" by (rule ev)
    then show ?thesis using False by (simp add: extend_size_def)
  qed
qed

lemma extend_heap_alt:
  "extend_heap words s =
     (case mem_sbrk (extend_size words) s of
        (bp, s1) \<Rightarrow>
          if bp = - 1 then Some (NULL, s1)
          else do {
            s2 \<leftarrow> PUT (HDRP bp) (PACK (extend_size words) 0) s1;
            f \<leftarrow> FTRP s2 bp;
            s3 \<leftarrow> PUT f (PACK (extend_size words) 0) s2;
            n \<leftarrow> NEXT_BLKP s3 bp;
            s4 \<leftarrow> PUT (HDRP n) (PACK 0 1) s3;
            Some (bp, s4)
          })"
  by (simp only: extend_heap_def extend_size_def Let_def)

lemma extend_heap_ok:
  assumes room: "unat (mem_brk s) + unat (extend_size words) \<le> unat (mem_max_addr s)"
      and nf: "mem_brk s \<noteq> - 1"
      and c1: "mem s (mem_brk s - 8) \<noteq> None"
      and c2: "mem s (mem_brk s + extend_size words - 16) \<noteq> None"
      and c3: "mem s (mem_brk s + extend_size words - 8) \<noteq> None"
  shows "extend_heap words s =
     Some (mem_brk s,
           s\<lparr>mem := (mem s)(mem_brk s - 8 \<mapsto> extend_size words,
                             mem_brk s + extend_size words - 16 \<mapsto> extend_size words,
                             mem_brk s + extend_size words - 8 \<mapsto> 1),
             mem_brk := mem_brk s + extend_size words\<rparr>)"
proof -
  define z where "z = extend_size words"
  have al: "z AND NOT 15 = z"
    unfolding z_def by (rule size_clear) (rule extend_size_mult16)
  have z8: "z \<noteq> 8"
    using extend_size_mult16 [of words] unfolding z_def by auto
  have sb: "mem_sbrk z s = (mem_brk s, s\<lparr>mem_brk := mem_brk s + z\<rparr>)"
    using room unfolding z_def by (simp add: mem_sbrk_def)
  show ?thesis
    unfolding extend_heap_alt z_def[symmetric]
    using nf c1 c2 c3 z8 al unfolding z_def[symmetric]
    by (simp add: sb exec_simps)
qed

lemma place_whole:
  assumes hd: "mem s (bp - 8) = Some c"
      and fit: "\<not> 32 \<le> (c AND NOT 15) - asize"
      and ft: "mem s (bp + (c AND NOT 15) - 16) \<noteq> None"
  shows "place bp asize False s =
     Some (s\<lparr>mem := (mem s)(bp - 8 \<mapsto> PACK (c AND NOT 15) 1,
                              bp + (c AND NOT 15) - 16 \<mapsto> PACK (c AND NOT 15) 1)\<rparr>)"
proof -
  have "((c AND NOT 15) OR 1) AND NOT 15 = c AND NOT 15"
    by (rule size_pack1) (rule getsize_mult)
  then show ?thesis
    using hd fit ft by (simp add: place_def exec_simps)
qed

section \<open>The miss hint of \<open>mm_malloc\<close>\<close>

lemma heap_miss_reached:
  "do { (r, s) \<leftarrow> mm_malloc 200 heap_init; (q, s) \<leftarrow> mm_malloc 100 s;
        s \<leftarrow> mm_free r s; Some (r, q, s) } = Some (0x1070, 0x1150, heap_miss)"
  unfolding heap_init_def heap_miss_def
  by (simp add: op_defs run_simps) (auto simp: fun_eq_iff)

text \<open>
  C9. A request whose adjusted size equals \<open>failedsize\<close> is served from a fresh
  extension of exactly that size: the result is the old end of the heap, the new block
  is stamped allocated with the adjusted size, a new epilogue header follows it, and
  nothing else of the state changes. The free lists are not consulted: the equation holds
  whatever they contain (in the witness the list of class 2 holds a block that fits).
  The hypotheses say that the request is not zero, that the arena has room and that the
  three words written are words of the arena.
\<close>

theorem mm_malloc_failedsize_skips_fit:
  assumes nz: "sz \<noteq> 0"
      and hint: "adjust sz = failedsize s"
      and big: "2 * DSIZE \<le> adjust sz"
      and room: "unat (mem_brk s) + unat (adjust sz) \<le> unat (mem_max_addr s)"
      and nf: "mem_brk s \<noteq> - 1" "mem_brk s \<noteq> NULL"
      and c1: "mem s (mem_brk s - WSIZE) \<noteq> None"
      and c2: "mem s (mem_brk s + adjust sz - DSIZE) \<noteq> None"
      and c3: "mem s (mem_brk s + adjust sz - WSIZE) \<noteq> None"
  shows "mm_malloc sz s =
     Some (mem_brk s,
           s\<lparr>mem := (mem s)(mem_brk s - WSIZE \<mapsto> PACK (adjust sz) 1,
                             mem_brk s + adjust sz - DSIZE \<mapsto> PACK (adjust sz) 1,
                             mem_brk s + adjust sz - WSIZE \<mapsto> PACK 0 1),
             mem_brk := mem_brk s + adjust sz\<rparr>)"
proof -
  let ?A = "adjust sz"
  let ?b = "mem_brk s"
  have al: "?A AND 15 = 0"
    by (rule adjust_mult16)
  have es: "extend_size (?A div 8) = ?A"
    using div8_even [OF al] div8_mul8 [OF al] by (simp add: extend_size_def)
  have A0: "?A \<noteq> 0" and A8: "?A \<noteq> 8"
    using big al by auto
  have ex: "extend_heap (?A div 8) s =
     Some (?b, s\<lparr>mem := (mem s)(?b - 8 \<mapsto> ?A, ?b + ?A - 16 \<mapsto> ?A, ?b + ?A - 8 \<mapsto> 1),
                 mem_brk := ?b + ?A\<rparr>)"
    using extend_heap_ok [of s "?A div 8"] room nf c1 c2 c3
    by (simp add: es)
  let ?s1 = "s\<lparr>mem := (mem s)(?b - 8 \<mapsto> ?A, ?b + ?A - 16 \<mapsto> ?A, ?b + ?A - 8 \<mapsto> 1),
                 mem_brk := ?b + ?A\<rparr>"
  have sc: "?A AND NOT 15 = ?A"
    by (rule size_clear) (rule al)
  have hd: "mem ?s1 (?b - 8) = Some ?A"
    using A0 A8 by simp
  have pl: "place ?b ?A False ?s1 =
     Some (?s1\<lparr>mem := (mem ?s1)(?b - 8 \<mapsto> PACK (?A AND NOT 15) 1,
                              ?b + (?A AND NOT 15) - 16 \<mapsto> PACK (?A AND NOT 15) 1)\<rparr>)"
    by (rule place_whole [OF hd]) (use sc c2 in simp_all)
  have fin: "(mem s)(?b - 8 \<mapsto> ?A, ?b + ?A - 16 \<mapsto> ?A, ?b + ?A - 8 \<mapsto> 1,
                     ?b - 8 \<mapsto> PACK ?A 1, ?b + ?A - 16 \<mapsto> PACK ?A 1)
      = (mem s)(?b - 8 \<mapsto> PACK ?A 1, ?b + ?A - 16 \<mapsto> PACK ?A 1, ?b + ?A - 8 \<mapsto> PACK 0 1)"
    using A0 A8 by (auto simp: fun_eq_iff PACK_def)
  show ?thesis
    using nz hint nf ex pl fin sc
    by (simp add: mm_malloc_def Let_def)
qed

theorem mm_malloc_failedsize_skips_fit_witness:
  "find_fit (adjust 100) heap_miss = Some 0x1070 \<and>
   adjust 100 = failedsize heap_miss \<and>
   mm_malloc 100 heap_miss =
     Some (mem_brk heap_miss,
           heap_miss\<lparr>mem := (mem heap_miss)(mem_brk heap_miss - WSIZE \<mapsto> PACK (adjust 100) 1,
                             mem_brk heap_miss + adjust 100 - DSIZE \<mapsto> PACK (adjust 100) 1,
                             mem_brk heap_miss + adjust 100 - WSIZE \<mapsto> PACK 0 1),
             mem_brk := mem_brk heap_miss + adjust 100\<rparr>)"
proof -
  have h: "adjust 100 = failedsize heap_miss"
          "2 * DSIZE \<le> adjust 100"
          "unat (mem_brk heap_miss) + unat (adjust 100) \<le> unat (mem_max_addr heap_miss)"
          "mem_brk heap_miss \<noteq> - 1" "mem_brk heap_miss \<noteq> NULL"
          "mem heap_miss (mem_brk heap_miss - WSIZE) \<noteq> None"
          "mem heap_miss (mem_brk heap_miss + adjust 100 - DSIZE) \<noteq> None"
          "mem heap_miss (mem_brk heap_miss + adjust 100 - WSIZE) \<noteq> None"
    by (simp_all add: heap_miss_def adjust_def run_simps)
  have f: "find_fit (adjust 100) heap_miss = Some 0x1070"
    by (simp add: heap_miss_def op_defs run_simps)
  show ?thesis
    using mm_malloc_failedsize_skips_fit [of 100 heap_miss, OF _ h] f h(1) by simp
qed

section \<open>The example heaps are reachable\<close>

lemma heap_full_reached:
  "do { (r, s) \<leftarrow> mm_init (fresh_arena 0x1000 0x10B0); mm_malloc 40 s } = Some (0x1070, heap_full)"
  unfolding heap_full_def
  by (simp add: mm_init_def clear_lists_numeral op_defs run_simps) (auto simp: fun_eq_iff)

lemma heap_tailfree_reached:
  "do { (p, s) \<leftarrow> mm_malloc 40 heap_init; s \<leftarrow> mm_free p s; Some (p, s) } = Some (0x1070, heap_tailfree)"
  unfolding heap_init_def heap_tailfree_def
  by (simp add: op_defs run_simps) (auto simp: fun_eq_iff)

lemma heap_pq_reached:
  "do { (p, s) \<leftarrow> mm_malloc 40 heap_init; (q, s) \<leftarrow> mm_malloc 40 s; Some (p, q, s) }
     = Some (0x1070, 0x10B0, heap_pq)"
  unfolding heap_init_def heap_pq_def
  by (simp add: op_defs run_simps) (auto simp: fun_eq_iff)

lemma heap_pq_alloc_reached: "mm_malloc 100 heap_pq = Some (0x10F0, heap_pq_alloc)"
  unfolding heap_pq_def heap_pq_alloc_def
  by (simp add: op_defs run_simps) (auto simp: fun_eq_iff)

section \<open>Failure of the arena\<close>

lemma mm_malloc_oom:
  assumes "sz \<noteq> 0"
      and "unat (mem_max_addr s) < unat (mem_brk s) + unat (adjust sz)"
      and "adjust sz = failedsize s \<or> find_fit (adjust sz) s = Some NULL"
  shows "mm_malloc sz s = Some (NULL, s\<lparr>failedsize := adjust sz\<rparr>)"
proof -
  have al: "adjust sz AND 15 = 0"
    by (rule adjust_mult16)
  have es: "extend_size (adjust sz div 8) = adjust sz"
    using div8_even [OF al] div8_mul8 [OF al] by (simp add: extend_size_def)
  have "\<And>t. mem_brk t = mem_brk s \<Longrightarrow> mem_max_addr t = mem_max_addr s \<Longrightarrow>
          extend_heap (adjust sz div 8) t = Some (NULL, t)"
    using assms(2) by (simp add: extend_heap_alt es mem_sbrk_def)
  then show ?thesis
    using assms(1,3) by (auto simp: mm_malloc_def Let_def)
qed

text \<open>
  C2. \<open>mm_malloc\<close> returns NULL and leaves every word of the heap as it was when the
  arena cannot be extended (\<open>mm_malloc_oom\<close>; only \<open>failedsize\<close> is set). \<open>mm_realloc\<close>
  does not: growing the last block it ignores the result of \<open>extend_heap\<close> and rewrites the
  header and the footer of the block for the new size all the same. On \<open>heap_full\<close> the footer
  lies past the end of the arena and the call has no result; where that word exists the call
  returns the old pointer, not NULL, with the header changed.
\<close>

theorem mm_realloc_ignores_failed_extension:
  "extend_heap ((adjust 100 - 64) div WSIZE) heap_full = Some (NULL, heap_full) \<and>
   mm_malloc 100 heap_full = Some (NULL, heap_full\<lparr>failedsize := 128\<rparr>) \<and>
   mm_realloc 0x1070 100 heap_full = None \<and>
   mm_realloc 0x1070 100 (heap_full\<lparr>mem := (mem heap_full)(0x10E0 \<mapsto> 0)\<rparr>)
     = Some (0x1070, heap_full\<lparr>mem := (mem heap_full)(0x1068 \<mapsto> PACK 128 1, 0x10E0 \<mapsto> PACK 128 1)\<rparr>)"
  unfolding heap_full_def
  apply (intro conjI)
  apply (simp add: op_defs run_simps)
  apply (simp add: op_defs run_simps)
  apply (simp add: op_defs run_simps PUT_unmapped)
  apply (simp add: op_defs run_simps)
  done

section \<open>Extension of the heap\<close>

lemma extend_heap_part_001_alt:
  "extend_heap_part_001 words s =
     (case mem_sbrk (extend_size words) s of
        (bp, s1) \<Rightarrow>
          if bp = - 1 then Some (NULL, s1)
          else do {
            s2 \<leftarrow> PUT (HDRP bp) (PACK (extend_size words) 0) s1;
            f \<leftarrow> FTRP s2 bp;
            s3 \<leftarrow> PUT f (PACK (extend_size words) 0) s2;
            n \<leftarrow> NEXT_BLKP s3 bp;
            s4 \<leftarrow> PUT (HDRP n) (PACK 0 1) s3;
            coalesce bp s4
          })"
  by (simp only: extend_heap_part_001_def extend_size_def Let_def)

lemma extend_heap_part_001_ok:
  assumes room: "unat (mem_brk s) + unat (extend_size words) \<le> unat (mem_max_addr s)"
      and nf: "mem_brk s \<noteq> - 1"
      and c1: "mem s (mem_brk s - 8) \<noteq> None"
      and c2: "mem s (mem_brk s + extend_size words - 16) \<noteq> None"
      and c3: "mem s (mem_brk s + extend_size words - 8) \<noteq> None"
  shows "extend_heap_part_001 words s =
     coalesce (mem_brk s)
           (s\<lparr>mem := (mem s)(mem_brk s - 8 \<mapsto> extend_size words,
                             mem_brk s + extend_size words - 16 \<mapsto> extend_size words,
                             mem_brk s + extend_size words - 8 \<mapsto> 1),
             mem_brk := mem_brk s + extend_size words\<rparr>)"
proof -
  define z where "z = extend_size words"
  have al: "z AND NOT 15 = z"
    unfolding z_def by (rule size_clear) (rule extend_size_mult16)
  have z8: "z \<noteq> 8"
    using extend_size_mult16 [of words] unfolding z_def by auto
  have sb: "mem_sbrk z s = (mem_brk s, s\<lparr>mem_brk := mem_brk s + z\<rparr>)"
    using room unfolding z_def by (simp add: mem_sbrk_def)
  show ?thesis
    unfolding extend_heap_part_001_alt z_def[symmetric]
    using nf c1 c2 c3 z8 al unfolding z_def[symmetric]
    by (simp add: sb exec_simps) (rule arg_cong [where f = "coalesce (mem_brk s)"], simp)
qed

text \<open>
  C4, as stated, fails on mm.c: on \<open>heap_tailfree\<close> the block before the end of the heap
  is free, and \<open>extend_heap\<close> returns the new block at the old end of the heap, leaves the
  header of the free predecessor and all list heads as they were, and puts the new block on
  no list. The earlier revision returns the merged block, on the list of class 1.
\<close>

theorem extend_heap_does_not_coalesce:
  "GET_ALLOC heap_tailfree (HDRP 0x1070) = Some 0 \<and>
   PREV_BLKP heap_tailfree (mem_brk heap_tailfree) = Some 0x1070 \<and>
   extend_heap 8 heap_tailfree =
     Some (0x10B0,
           heap_of 0x2000 [(0x1008, 17), (0x1010, 17), (0x1018, 81), (0x1020, 0x1070), (0x1060, 81),
                           (0x1068, 64), (0x10A0, 64), (0x10A8, 64), (0x10E0, 64), (0x10E8, 1)]
             0x1020 0x1010 0 0x10F0) \<and>
   extend_heap_part_001 8 heap_tailfree =
     Some (0x1070,
           heap_of 0x2000 [(0x1008, 17), (0x1010, 17), (0x1018, 81), (0x1028, 0x1070), (0x1060, 81),
                           (0x1068, 128), (0x10A0, 64), (0x10A8, 64), (0x10E0, 128), (0x10E8, 1)]
             0x1020 0x1010 0 0x10F0)"
  unfolding heap_tailfree_def
  apply (intro conjI)
  apply (simp add: op_defs run_simps)
  apply (simp add: op_defs run_simps)
  apply (simp add: op_defs run_simps, auto simp: fun_eq_iff)[1]
  apply (simp add: extend_heap_part_001_def op_defs run_simps, auto simp: fun_eq_iff)[1]
  done

text \<open>
  C4, amended. A successful \<open>extend_heap\<close> of mm.c writes three words, the header and
  footer (size, free) of the new block and the new epilogue header (0, allocated), and
  returns the payload address of the new block, the old end of the heap; it neither
  coalesces the block nor inserts it into a free list (\<open>mm_malloc\<close> places into it with
  \<open>remove_flag = 0\<close>). The earlier revision applies \<open>coalesce\<close> to that same block and
  state and returns its result. Success means that the arena has room and that the three
  words are words of the arena.
\<close>

theorem extend_heap_returns_new_block:
  assumes room: "unat (mem_brk s) + unat (extend_size words) \<le> unat (mem_max_addr s)"
      and nf: "mem_brk s \<noteq> - 1"
      and c1: "mem s (mem_brk s - WSIZE) \<noteq> None"
      and c2: "mem s (mem_brk s + extend_size words - DSIZE) \<noteq> None"
      and c3: "mem s (mem_brk s + extend_size words - WSIZE) \<noteq> None"
  shows "extend_heap words s =
     Some (mem_brk s,
           s\<lparr>mem := (mem s)(mem_brk s - WSIZE \<mapsto> PACK (extend_size words) 0,
                             mem_brk s + extend_size words - DSIZE \<mapsto> PACK (extend_size words) 0,
                             mem_brk s + extend_size words - WSIZE \<mapsto> PACK 0 1),
             mem_brk := mem_brk s + extend_size words\<rparr>)
   \<and> extend_heap_part_001 words s =
     coalesce (mem_brk s)
          (s\<lparr>mem := (mem s)(mem_brk s - WSIZE \<mapsto> PACK (extend_size words) 0,
                             mem_brk s + extend_size words - DSIZE \<mapsto> PACK (extend_size words) 0,
                             mem_brk s + extend_size words - WSIZE \<mapsto> PACK 0 1),
             mem_brk := mem_brk s + extend_size words\<rparr>)"
  using extend_heap_ok [of s words] extend_heap_part_001_ok [of s words] assms
  by (simp add: PACK_def)

theorem extend_heap_returns_new_block_witness:
  "extend_heap 8 heap_tailfree =
     Some (mem_brk heap_tailfree,
           heap_tailfree\<lparr>mem := (mem heap_tailfree)(mem_brk heap_tailfree - WSIZE \<mapsto> PACK (extend_size 8) 0,
                             mem_brk heap_tailfree + extend_size 8 - DSIZE \<mapsto> PACK (extend_size 8) 0,
                             mem_brk heap_tailfree + extend_size 8 - WSIZE \<mapsto> PACK 0 1),
             mem_brk := mem_brk heap_tailfree + extend_size 8\<rparr>)
   \<and> extend_heap_part_001 8 heap_tailfree =
     coalesce (mem_brk heap_tailfree)
          (heap_tailfree\<lparr>mem := (mem heap_tailfree)(mem_brk heap_tailfree - WSIZE \<mapsto> PACK (extend_size 8) 0,
                             mem_brk heap_tailfree + extend_size 8 - DSIZE \<mapsto> PACK (extend_size 8) 0,
                             mem_brk heap_tailfree + extend_size 8 - WSIZE \<mapsto> PACK 0 1),
             mem_brk := mem_brk heap_tailfree + extend_size 8\<rparr>)"
proof -
  have h: "unat (mem_brk heap_tailfree) + unat (extend_size 8) \<le> unat (mem_max_addr heap_tailfree)"
      "mem_brk heap_tailfree \<noteq> - 1"
      "mem heap_tailfree (mem_brk heap_tailfree - WSIZE) \<noteq> None"
      "mem heap_tailfree (mem_brk heap_tailfree + extend_size 8 - DSIZE) \<noteq> None"
      "mem heap_tailfree (mem_brk heap_tailfree + extend_size 8 - WSIZE) \<noteq> None"
    by (simp_all add: heap_tailfree_def extend_size_def run_simps)
  show ?thesis
    by (rule extend_heap_returns_new_block [OF h])
qed

section \<open>Relocation by \<open>mm_realloc\<close>\<close>

lemma memcpy_words_numeral:
  "memcpy_words (numeral k) dst src s =
     do { v \<leftarrow> GET s src; s1 \<leftarrow> PUT dst v s;
          memcpy_words (pred_numeral k) (dst + WSIZE) (src + WSIZE) s1 }"
  by (simp add: numeral_eq_Suc)

lemma word8_mult_neq0:
  assumes "0 < k" "k < 2 ^ 61"
  shows "(8 * of_nat k :: 64 word) \<noteq> 0"
proof -
  have "unat (of_nat k :: 64 word) = k"
    using assms by (simp add: unat_of_nat)
  moreover have "8 * k < 2 ^ 64"
    using assms by simp
  ultimately have u: "unat (8 * of_nat k :: 64 word) = 8 * k"
    by (simp add: unat_word_ariths(2))
  show ?thesis
  proof
    assume "(8 * of_nat k :: 64 word) = 0"
    then have "unat (8 * of_nat k :: 64 word) = 0" by simp
    with u assms show False by simp
  qed
qed

lemma cell_Suc: "(d :: 64 word) + 8 * of_nat (Suc k) = (d + 8) + 8 * of_nat k"
  by (simp add: distrib_left add.assoc)

lemma cell_0: "(d :: 64 word) + 8 * of_nat (0::nat) = d"
  by simp

lemma memcpy_words_copies:
  assumes "memcpy_words n dst src s = Some s'"
      and "n < 2 ^ 61"
      and "\<forall>i<n. \<forall>j<n. dst + 8 * of_nat i \<noteq> src + 8 * of_nat j"
  shows "(\<forall>k<n. mem s' (dst + 8 * of_nat k) = mem s (src + 8 * of_nat k))
       \<and> (\<forall>a. (\<forall>k<n. a \<noteq> dst + 8 * of_nat k) \<longrightarrow> mem s' a = mem s a)"
  using assms
proof (induction n arbitrary: dst src s)
  case 0
  then show ?case by simp
next
  case (Suc n)
  from Suc.prems(1) obtain v old where v: "mem s src = Some v" and o: "mem s dst = Some old"
    and r: "memcpy_words n (dst + 8) (src + 8) (s\<lparr>mem := (mem s)(dst \<mapsto> v)\<rparr>) = Some s'"
    by (auto simp: GET_def PUT_def split: option.splits bind_splits)
  let ?s1 = "s\<lparr>mem := (mem s)(dst \<mapsto> v)\<rparr>"
  have n61: "n < 2 ^ 61" using Suc.prems(2) by simp
  have dj: "\<forall>i<n. \<forall>j<n. (dst + 8) + 8 * of_nat i \<noteq> (src + 8) + 8 * of_nat j"
  proof (intro allI impI)
    fix i j assume "i < n" "j < n"
    then have "dst + 8 * of_nat (Suc i) \<noteq> src + 8 * of_nat (Suc j)"
      using Suc.prems(3) by simp
    then show "(dst + 8) + 8 * of_nat i \<noteq> (src + 8) + 8 * of_nat j"
      unfolding cell_Suc .
  qed
  from Suc.IH [OF r n61 dj]
  have ih1: "\<forall>k<n. mem s' (dst + 8 + 8 * of_nat k) = mem ?s1 (src + 8 + 8 * of_nat k)"
   and ih2: "\<forall>a. (\<forall>k<n. a \<noteq> dst + 8 + 8 * of_nat k) \<longrightarrow> mem s' a = mem ?s1 a"
    by blast+
  have d0: "\<forall>k<n. dst \<noteq> dst + 8 + 8 * of_nat k"
  proof (intro allI impI)
    fix k assume "k < n"
    then have "(8 * of_nat (Suc k) :: 64 word) \<noteq> 0"
      using Suc.prems(2) by (intro word8_mult_neq0) simp_all
    then have "dst \<noteq> dst + 8 * of_nat (Suc k)"
      by simp
    then show "dst \<noteq> dst + 8 + 8 * of_nat k"
      unfolding cell_Suc .
  qed
  have "mem s' dst = mem ?s1 dst"
    using ih2 d0 by blast
  then have first: "mem s' dst = mem s src"
    using v by simp
  have rest: "\<forall>k<n. mem s' (dst + 8 * of_nat (Suc k)) = mem s (src + 8 * of_nat (Suc k))"
  proof (intro allI impI)
    fix k assume k: "k < n"
    have "dst + 8 * of_nat (0::nat) \<noteq> src + 8 * of_nat (Suc k)"
      using Suc.prems(3) k by blast
    then have ne: "src + 8 + 8 * of_nat k \<noteq> dst"
      unfolding cell_Suc cell_0 by blast
    have "mem s' (dst + 8 + 8 * of_nat k) = mem ?s1 (src + 8 + 8 * of_nat k)"
      using ih1 k by blast
    also have "\<dots> = mem s (src + 8 + 8 * of_nat k)"
      using ne by simp
    finally show "mem s' (dst + 8 * of_nat (Suc k)) = mem s (src + 8 * of_nat (Suc k))"
      unfolding cell_Suc .
  qed
  have copies: "\<forall>k<Suc n. mem s' (dst + 8 * of_nat k) = mem s (src + 8 * of_nat k)"
  proof (intro allI impI)
    fix k assume kk: "k < Suc n"
    show "mem s' (dst + 8 * of_nat k) = mem s (src + 8 * of_nat k)"
    proof (cases k)
      case 0
      then show ?thesis using first by simp
    next
      case (Suc m)
      then have "m < n" using kk by simp
      then show ?thesis using rest Suc by blast
    qed
  qed
  have frame: "\<forall>a. (\<forall>k<Suc n. a \<noteq> dst + 8 * of_nat k) \<longrightarrow> mem s' a = mem s a"
  proof (intro allI impI)
    fix a assume a: "\<forall>k<Suc n. a \<noteq> dst + 8 * of_nat k"
    have "a \<noteq> dst + 8 * of_nat (0::nat)" using a by blast
    then have a0: "a \<noteq> dst" by simp
    have "\<forall>k<n. a \<noteq> dst + 8 + 8 * of_nat k"
    proof (intro allI impI)
      fix k assume "k < n"
      then have "Suc k < Suc n" by simp
      then have "a \<noteq> dst + 8 * of_nat (Suc k)" using a by blast
      then show "a \<noteq> dst + 8 + 8 * of_nat k" unfolding cell_Suc .
    qed
    then have "mem s' a = mem ?s1 a"
      using ih2 by blast
    then show "mem s' a = mem s a"
      using a0 by simp
  qed
  show ?case using copies frame by blast
qed

lemma unat_div8_bound: "unat ((x :: 64 word) div 8) < 2 ^ 61"
proof -
  have "unat x < 2 ^ 64"
    using unsigned_less [of x, where 'a = nat] by simp
  then show ?thesis
    by (simp add: unat_div)
qed

text \<open>
  C5, as stated, fails: on \<open>heap_pq\<close> the block at 0x1070 has size 64, and
  \<open>mm_realloc(0x1070, 100)\<close> copies 64 bytes, so that the words at 0x1120 and 0x1128 of
  the new block hold the old footer and the header of the next block; copying
  \<open>64 - DSIZE\<close> bytes would leave them 0.
\<close>

theorem mm_realloc_copies_block_size:
  "GET_SIZE heap_pq (HDRP 0x1070) = Some 64 \<and>
   mm_realloc 0x1070 100 heap_pq =
     Some (0x10F0,
           heap_of 0x2000 [(0x1008, 17), (0x1010, 17), (0x1018, 81), (0x1020, 0x1070), (0x1060, 81),
                           (0x1068, 64), (0x10A0, 64), (0x10A8, 65), (0x10E0, 65), (0x10E8, 129),
                           (0x10F0, 1), (0x1120, 65), (0x1128, 65), (0x1160, 129), (0x1168, 1)]
             0x1020 0x1010 128 0x1170) \<and>
   relocate (64 - DSIZE) 0x1070 100 heap_pq =
     Some (0x10F0,
           heap_of 0x2000 [(0x1008, 17), (0x1010, 17), (0x1018, 81), (0x1020, 0x1070), (0x1060, 81),
                           (0x1068, 64), (0x10A0, 64), (0x10A8, 65), (0x10E0, 65), (0x10E8, 129),
                           (0x10F0, 1), (0x1160, 129), (0x1168, 1)]
             0x1020 0x1010 128 0x1170)"
  unfolding heap_pq_def
  apply (intro conjI)
  apply (simp add: op_defs run_simps)
  apply (simp add: op_defs run_simps memcpy_words_numeral, auto simp: fun_eq_iff)[1]
  apply (simp add: relocate_def op_defs run_simps memcpy_words_numeral, auto simp: fun_eq_iff)[1]
  done

section \<open>The fit search\<close>

lemma less_8_cases:
  "i < (8::nat) \<Longrightarrow> i = 0 \<or> i = 1 \<or> i = 2 \<or> i = 3 \<or> i = 4 \<or> i = 5 \<or> i = 6 \<or> i = 7"
  by arith

lemma all_less_8: "(\<forall>i<8::nat. P i) = (P 0 \<and> P 1 \<and> P 2 \<and> P 3 \<and> P 4 \<and> P 5 \<and> P 6 \<and> P 7)"
proof
  assume "\<forall>i<8. P i"
  then show "P 0 \<and> P 1 \<and> P 2 \<and> P 3 \<and> P 4 \<and> P 5 \<and> P 6 \<and> P 7" by simp
next
  assume a: "P 0 \<and> P 1 \<and> P 2 \<and> P 3 \<and> P 4 \<and> P 5 \<and> P 6 \<and> P 7"
  show "\<forall>i<8. P i"
  proof (intro allI impI)
    fix i :: nat assume "i < 8"
    from less_8_cases [OF this] a show "P i" by auto
  qed
qed

lemma heap_two_reached:
  "do { (x, s) \<leftarrow> mm_malloc 60 heap_init; (g, s) \<leftarrow> mm_malloc 40 s; (y, s) \<leftarrow> mm_malloc 100 s;
        (h, s) \<leftarrow> mm_malloc 40 s; s \<leftarrow> mm_free y s; s \<leftarrow> mm_free x s; Some (x, y, s) }
     = Some (0x1070, 0x1100, heap_two)"
  unfolding heap_init_def heap_two_def
  by (simp add: op_defs run_simps) (auto simp: fun_eq_iff)

lemma fl_chain_nonnull: "fl_chain s p bs \<Longrightarrow> NULL \<notin> set bs"
  by (induction bs arbitrary: p) (auto split: option.splits)

lemma first_fit_null_iff:
  "NULL \<notin> set bs \<Longrightarrow> (first_fit s asize bs = NULL) = (\<forall>b\<in>set bs. \<not> block_fits s asize b)"
  by (auto simp: first_fit_def find_None_iff split: option.splits dest: find_Some_iff[THEN iffD1])
    (metis find_Some_iff nth_mem)

lemma find_fit_scan_chain:
  "fl_chain s p bs \<Longrightarrow> find_fit_scan s asize p = Some (first_fit s asize bs)"
proof (induction bs arbitrary: p)
  case Nil
  then show ?case
    by (subst find_fit_scan.simps) (simp add: first_fit_def)
next
  case (Cons b bs)
  from Cons.prems obtain h n where b: "p = b" "b \<noteq> 0" and h: "mem s (HDRP b) = Some h"
    and n: "mem s (next_field b) = Some n" and c: "fl_chain s n bs"
    by (auto split: option.splits)
  show ?case
  proof (cases "block_fits s asize b")
    case True
    then show ?thesis
      using b h by (subst find_fit_scan.simps) (simp add: first_fit_def block_fits_def GET_SIZE_def GET_def)
  next
    case False
    then show ?thesis
      using b h n Cons.IH [OF c]
      by (subst find_fit_scan.simps) (simp add: first_fit_def block_fits_def GET_SIZE_def GET_def)
  qed
qed

lemma first_fit_append:
  "first_fit s asize (xs @ ys) =
     (if first_fit s asize xs \<noteq> NULL \<or> (\<exists>b\<in>set xs. block_fits s asize b) then first_fit s asize xs
      else first_fit s asize ys)"
  by (induction xs) (auto simp: first_fit_def)

lemma find_fit_from_chains:
  assumes "\<forall>i<8. idx \<le> i \<longrightarrow> (\<exists>h. mem s (list_slot s i) = Some h \<and> fl_chain s h (L i))"
  shows "find_fit_from s asize idx = Some (first_fit s asize (concat (map L [idx..<8])))"
  using assms
proof (induction s asize idx rule: find_fit_from.induct)
  case (1 s asize idx)
  show ?case
  proof (cases "idx < 8")
    case False
    then show ?thesis
      by (subst find_fit_from.simps) (simp add: first_fit_def)
  next
    case True
    from "1.prems" True obtain h where h: "mem s (list_slot s idx) = Some h" and c: "fl_chain s h (L idx)"
      by auto
    have sc: "find_fit_scan s asize h = Some (first_fit s asize (L idx))"
      by (rule find_fit_scan_chain [OF c])
    have up: "[idx..<8] = idx # [Suc idx..<8]"
      using True by (simp add: upt_conv_Cons)
    have nn: "NULL \<notin> set (L idx)"
      by (rule fl_chain_nonnull [OF c])
    show ?thesis
    proof (cases "first_fit s asize (L idx) = NULL")
      case False
      then show ?thesis
        using True h sc
        by (subst find_fit_from.simps) (simp add: GET_def up first_fit_append)
    next
      case null: True
      have rest: "\<forall>i<8. idx + 1 \<le> i \<longrightarrow> (\<exists>h. mem s (list_slot s i) = Some h \<and> fl_chain s h (L i))"
        using "1.prems" by auto
      have ih: "find_fit_from s asize (idx + 1) = Some (first_fit s asize (concat (map L [idx + 1..<8])))"
        using "1.IH" [OF True _ _ _ rest] h sc null by (simp add: GET_def)
      have nofit: "\<not> (\<exists>b\<in>set (L idx). block_fits s asize b)"
        using null first_fit_null_iff [OF nn] by simp
      show ?thesis
        using True h sc null ih nofit
        by (subst find_fit_from.simps) (simp add: GET_def up first_fit_append)
    qed
  qed
qed

text \<open>
  C7. Let the heads of the classes from \<open>find_list asize\<close> up to the last be the starts
  of proper chains \<open>L i\<close>. Then \<open>find_fit\<close> returns, and what it returns is the first
  block, in the order class by class and within a class in list order, whose size is at
  least \<open>asize\<close>; it returns NULL exactly when no block of these lists has that size.
\<close>

theorem find_fit_first_fit:
  assumes "\<forall>i<8. find_list asize \<le> i \<longrightarrow> (\<exists>h. mem s (list_slot s i) = Some h \<and> fl_chain s h (L i))"
  shows "find_fit asize s = Some (first_fit s asize (concat (map L [find_list asize..<8])))
       \<and> (find_fit asize s = Some NULL) =
           (\<forall>b\<in>set (concat (map L [find_list asize..<8])). \<not> block_fits s asize b)"
proof -
  have a: "find_fit asize s = Some (first_fit s asize (concat (map L [find_list asize..<8])))"
    unfolding find_fit_def by (rule find_fit_from_chains [OF assms])
  have "NULL \<notin> set (concat (map L [find_list asize..<8]))"
    using assms fl_chain_nonnull by fastforce
  then show ?thesis
    using a first_fit_null_iff by simp
qed

theorem find_fit_first_fit_witness:
  "find_fit 96 heap_two = Some 0x1100 \<and> find_list 96 = 1 \<and>
   fl_chain heap_two 0x1070 [0x1070, 0x1100] \<and>
   \<not> block_fits heap_two 96 0x1070 \<and> block_fits heap_two 96 0x1100"
proof -
  let ?L = "\<lambda>i::nat. if i = 1 then [0x1070, 0x1100 :: addr] else []"
  have h: "\<forall>i<8. find_list 96 \<le> i \<longrightarrow>
             (\<exists>h. mem heap_two (list_slot heap_two i) = Some h \<and> fl_chain heap_two h (?L i))"
    unfolding all_less_8 by (simp add: heap_two_def find_list_def run_simps)
  have c: "fl_chain heap_two 0x1070 [0x1070, 0x1100]"
    by (simp add: heap_two_def run_simps)
  have f: "\<not> block_fits heap_two 96 0x1070" "block_fits heap_two 96 0x1100" "find_list 96 = 1"
    by (simp_all add: heap_two_def block_fits_def find_list_def run_simps)
  have "first_fit heap_two 96 (concat (map ?L [find_list 96..<8])) = 0x1100"
    using f by (simp add: first_fit_def upt_rec)
  then show ?thesis
    using find_fit_first_fit [of 96 heap_two ?L, OF h] c f by simp
qed

section \<open>The free-list operations\<close>

lemma slot_inj:
  assumes "k < 8" "j < 8" "list_slot s k = list_slot s j"
  shows "k = j"
proof -
  have "(of_nat k :: 64 word) * 8 = of_nat j * 8"
    using assms(3) by (simp add: list_slot_def)
  then have "unat ((of_nat k :: 64 word) * 8) = unat ((of_nat j :: 64 word) * 8)"
    by simp
  moreover have "unat (of_nat k :: 64 word) = k" "unat (of_nat j :: 64 word) = j"
    using assms(1,2) by (simp_all add: unat_of_nat)
  ultimately have "(k * 8) mod 2 ^ 64 = (j * 8) mod 2 ^ 64"
    by (simp add: unat_word_ariths(2))
  moreover have "k * 8 < 2 ^ 64" "j * 8 < 2 ^ 64"
    using assms(1,2) by simp_all
  ultimately show ?thesis by simp
qed

lemma slot_in_slots: "k < 8 \<Longrightarrow> list_slot s k \<in> slots s"
  by (auto simp: slots_def)

lemma find_list_less: "find_list sz < 8"
  by (simp add: find_list_def)

lemma slots_mem_upd [simp]: "slots (s\<lparr>mem := m\<rparr>) = slots s"
  by (simp add: slots_def list_slot_def)

lemma list_slot_mem_upd [simp]: "list_slot (s\<lparr>mem := m\<rparr>) k = list_slot s k"
  by (simp add: list_slot_def)

lemma remove_free_cases:
  assumes inv: "fl_inv s F" and b: "b \<in> F"
      and hw: "mem s (HDRP b) = Some hw" and p: "mem s (prev_field b) = Some prv"
      and n: "mem s (next_field b) = Some nxt"
  shows "remove_free b s =
     Some (s\<lparr>mem :=
        (if prv = NULL
         then (if nxt \<noteq> NULL
               then (mem s)(prev_field nxt \<mapsto> NULL, list_slot s (find_list (hw AND NOT 15)) \<mapsto> nxt)
               else (mem s)(list_slot s (find_list (hw AND NOT 15)) \<mapsto> NULL))
         else (if nxt = NULL then (mem s)(next_field prv \<mapsto> NULL)
               else (mem s)(next_field prv \<mapsto> nxt, prev_field nxt \<mapsto> prv)))\<rparr>)"
proof -
  let ?sl = "list_slot s (find_list (hw AND NOT 15))"
  have sl: "mem s ?sl \<noteq> None"
    using inv find_list_less [of "hw AND NOT 15"] by (auto simp: fl_inv_def)
  have pF: "prv = 0 \<or> prv \<in> F" and nF: "nxt = 0 \<or> nxt \<in> F"
    using inv b p n by (auto simp: fl_inv_def)
  have nxm: "nxt \<noteq> 0 \<Longrightarrow> mem s (prev_field nxt) \<noteq> None"
    using inv nF by (auto simp: fl_inv_def)
  have pvm: "prv \<noteq> 0 \<Longrightarrow> mem s (next_field prv) \<noteq> None"
    using inv pF by (auto simp: fl_inv_def)
  have d1: "nxt \<noteq> 0 \<Longrightarrow> prev_field nxt \<noteq> next_field b"
    using inv nF b by (auto simp: fl_inv_def prev_field_def)
  have d2: "prv \<noteq> 0 \<Longrightarrow> next_field prv \<noteq> prev_field b"
    using inv pF b by (auto simp: fl_inv_def prev_field_def)
  have unf: "remove_free b s =
       (if prv = 0
        then (if nxt \<noteq> 0
              then do { s1 \<leftarrow> PUT (prev_field nxt) 0 s;
                        n1 \<leftarrow> GET s1 (next_field b);
                        PUT (list_slot s1 (find_list (hw AND NOT 15))) n1 s1 }
              else PUT ?sl 0 s)
        else (if nxt = 0 then PUT (next_field prv) 0 s
              else do { s1 \<leftarrow> PUT (next_field prv) nxt s;
                        n1 \<leftarrow> GET s1 (next_field b);
                        p1 \<leftarrow> GET s1 (prev_field b);
                        PUT (prev_field n1) p1 s1 }))"
    using hw p n by (simp add: remove_free_def GET_SIZE_def GET_def Let_def)
  show ?thesis
  proof (cases "prv = 0")
    case True
    show ?thesis
    proof (cases "nxt = 0")
      case True
      with \<open>prv = 0\<close> show ?thesis
        unfolding unf using sl by (simp add: PUT_mapped)
    next
      case False
      with \<open>prv = 0\<close> show ?thesis
        unfolding unf using sl nxm d1 n by (simp add: PUT_mapped GET_def)
    qed
  next
    case False
    show ?thesis
    proof (cases "nxt = 0")
      case True
      with \<open>prv \<noteq> 0\<close> show ?thesis
        unfolding unf using pvm by (simp add: PUT_mapped)
    next
      case nz: False
      have r1: "((mem s)(next_field prv \<mapsto> nxt)) (next_field b) = Some nxt"
        using n by simp
      have r2: "((mem s)(next_field prv \<mapsto> nxt)) (prev_field b) = Some prv"
        using p d2 False by simp
      have r3: "((mem s)(next_field prv \<mapsto> nxt)) (prev_field nxt) \<noteq> None"
        using nxm nz by simp
      show ?thesis
        unfolding unf using False nz pvm r1 r2 r3 by (simp add: PUT_mapped GET_def)
    qed
  qed
qed

lemma insert_free_cases:
  assumes inv: "fl_inv s F" and b: "b \<in> F \<or> fl_new s F b"
      and h: "mem s (list_slot s (find_list sz)) = Some h"
  shows "insert_free sz b s =
     Some (s\<lparr>mem :=
        (if h = NULL
         then (mem s)(list_slot s (find_list sz) \<mapsto> b, next_field b \<mapsto> NULL, prev_field b \<mapsto> NULL)
         else (mem s)(next_field b \<mapsto> h, prev_field b \<mapsto> NULL, prev_field h \<mapsto> b,
                      list_slot s (find_list sz) \<mapsto> b))\<rparr>)"
proof -
  let ?sl = "list_slot s (find_list sz)"
  have sls: "?sl \<in> slots s"
    by (rule slot_in_slots) (rule find_list_less)
  have bm: "mem s (prev_field b) \<noteq> None" "mem s (next_field b) \<noteq> None"
    and bs: "prev_field b \<notin> slots s" "next_field b \<notin> slots s"
    using inv b by (auto simp: fl_inv_def fl_new_def)
  have hF: "h = 0 \<or> h \<in> F"
    using inv h find_list_less [of sz] by (auto simp: fl_inv_def)
  have hm: "h \<noteq> 0 \<Longrightarrow> mem s (prev_field h) \<noteq> None"
    using inv hF by (auto simp: fl_inv_def)
  have d: "?sl \<noteq> prev_field b" "?sl \<noteq> next_field b"
    using sls bs by auto
  have unf: "insert_free sz b s =
       (if h = 0 then do {
          s1 \<leftarrow> PUT ?sl b s;
          h1 \<leftarrow> GET s1 (list_slot s1 (find_list sz));
          s2 \<leftarrow> PUT (next_field h1) 0 s1;
          h2 \<leftarrow> GET s2 (list_slot s2 (find_list sz));
          PUT (prev_field h2) 0 s2
        } else do {
          s1 \<leftarrow> PUT (next_field b) h s;
          s2 \<leftarrow> PUT (prev_field b) 0 s1;
          h1 \<leftarrow> GET s2 (list_slot s2 (find_list sz));
          s3 \<leftarrow> PUT (prev_field h1) b s2;
          PUT (list_slot s3 (find_list sz)) b s3
        })"
    using h by (simp add: insert_free_def GET_def Let_def)
  have slm: "mem s ?sl \<noteq> None"
    using h by simp
  show ?thesis
  proof (cases "h = 0")
    case True
    then show ?thesis
      unfolding unf using slm bm d by (simp add: PUT_mapped GET_def)
  next
    case False
    have r: "((mem s)(next_field b \<mapsto> h, prev_field b \<mapsto> 0)) ?sl = Some h"
      using h d by simp
    have m: "((mem s)(next_field b \<mapsto> h, prev_field b \<mapsto> 0)) (prev_field h) \<noteq> None"
      using hm False by simp
    show ?thesis
      unfolding unf using False slm bm r m by (simp add: PUT_mapped GET_def)
  qed
qed

lemma cells_ok_upd:
  "cells_ok G C m \<Longrightarrow> v = 0 \<or> v \<in> G \<Longrightarrow> cells_ok G (insert a C) (m(a \<mapsto> v))"
  by (auto simp: cells_ok_def)

lemma cells_ok_upd_in:
  "cells_ok G C m \<Longrightarrow> v = 0 \<or> v \<in> G \<Longrightarrow> cells_ok G C (m(a \<mapsto> v))"
  by (auto simp: cells_ok_def)

lemma cells_ok_mono:
  "cells_ok G C m \<Longrightarrow> C' \<subseteq> C \<Longrightarrow> G \<subseteq> G' \<Longrightarrow> cells_ok G' C' m"
  by (fastforce simp: cells_ok_def)

lemma fl_inv_cells: "fl_inv s F \<Longrightarrow> cells_ok F (fl_cells s F) (mem s)"
  by (fastforce simp: fl_inv_def cells_ok_def fl_cells_def slots_def)

lemma next_neq_prev: "next_field b \<noteq> prev_field b"
  by (simp add: next_field_def prev_field_def)

lemma fl_inv_step:
  assumes inv: "fl_inv s F"
      and G: "G = F \<or> (\<exists>b. G = insert b F \<and> fl_new s F b)"
      and dom: "\<forall>a. (m' a = None) = (mem s a = None)"
      and cont: "cells_ok G (fl_cells s G) m'"
  shows "fl_inv (s\<lparr>mem := m'\<rparr>) G"
proof -
  have a0: "0 \<notin> G"
    using inv G by (auto simp: fl_inv_def fl_new_def)
  have a1: "\<forall>k<8. \<exists>h. m' (list_slot s k) = Some h \<and> (h = 0 \<or> h \<in> G)"
    using cont by (auto simp: cells_ok_def fl_cells_def slots_def)
  have a2: "\<forall>b\<in>G. \<exists>p. m' (prev_field b) = Some p \<and> (p = 0 \<or> p \<in> G)"
    using cont by (auto simp: cells_ok_def fl_cells_def)
  have a3: "\<forall>b\<in>G. \<exists>n. m' (next_field b) = Some n \<and> (n = 0 \<or> n \<in> G)"
    using cont by (auto simp: cells_ok_def fl_cells_def)
  have a4: "\<forall>b\<in>G. m' (HDRP b) \<noteq> None"
    using inv G dom by (auto simp: fl_inv_def fl_new_def)
  have a5: "\<forall>b\<in>G. prev_field b \<notin> slots s \<and> next_field b \<notin> slots s"
    using inv G by (auto simp: fl_inv_def fl_new_def)
  have a6: "\<forall>b\<in>G. next_field b \<notin> G"
  proof
    fix c assume c: "c \<in> G"
    from G show "next_field c \<notin> G"
    proof
      assume "G = F"
      then show ?thesis using inv c by (auto simp: fl_inv_def)
    next
      assume "\<exists>b. G = insert b F \<and> fl_new s F b"
      then obtain b where g: "G = insert b F" and n: "fl_new s F b" by blast
      have "next_field c \<notin> F"
        using c g n inv by (auto simp: fl_inv_def fl_new_def)
      moreover have "next_field c \<noteq> b"
        using c g n next_neq_prev [of b] by (auto simp: fl_new_def prev_field_def)
      ultimately show ?thesis using g by simp
    qed
  qed
  show ?thesis
    unfolding fl_inv_def using a0 a1 a2 a3 a4 a5 a6 by simp
qed

lemma heap_frame_memI:
  "\<forall>a. (m' a = None) = (mem s a = None) \<Longrightarrow> \<forall>a. a \<notin> C \<longrightarrow> m' a = mem s a \<Longrightarrow>
   heap_frame C s (s\<lparr>mem := m'\<rparr>)"
  by (simp add: heap_frame_def)

lemma heap_frame_refl: "heap_frame C s s"
  by (simp add: heap_frame_def)

lemma heap_frame_trans:
  "heap_frame C s s' \<Longrightarrow> heap_frame C' s' s'' \<Longrightarrow> heap_frame (C \<union> C') s s''"
  by (auto simp: heap_frame_def)

lemma heap_frame_mono: "heap_frame C s s' \<Longrightarrow> C \<subseteq> C' \<Longrightarrow> heap_frame C' s s'"
  by (auto simp: heap_frame_def)

lemma heap_frame_slots: "heap_frame C s s' \<Longrightarrow> list_slot s' k = list_slot s k"
  by (simp add: heap_frame_def list_slot_def)

lemma heap_frame_PUT: "mem s a \<noteq> None \<Longrightarrow> heap_frame {a} s (s\<lparr>mem := (mem s)(a \<mapsto> v)\<rparr>)"
  by (auto simp: heap_frame_def)

lemma remove_free_inv:
  assumes inv: "fl_inv s F" and b: "b \<in> F"
  shows "\<exists>s'. remove_free b s = Some s' \<and> fl_inv s' F \<and> heap_frame (fl_cells s F) s s'"
proof -
  from inv b obtain hw prv nxt where hw: "mem s (HDRP b) = Some hw"
    and p: "mem s (prev_field b) = Some prv" and n: "mem s (next_field b) = Some nxt"
    by (auto simp: fl_inv_def)
  let ?sl = "list_slot s (find_list (hw AND NOT 15))"
  let ?m = "(if prv = NULL
         then (if nxt \<noteq> NULL
               then (mem s)(prev_field nxt \<mapsto> NULL, ?sl \<mapsto> nxt)
               else (mem s)(?sl \<mapsto> NULL))
         else (if nxt = NULL then (mem s)(next_field prv \<mapsto> NULL)
               else (mem s)(next_field prv \<mapsto> nxt, prev_field nxt \<mapsto> prv)))"
  have r: "remove_free b s = Some (s\<lparr>mem := ?m\<rparr>)"
    by (rule remove_free_cases [OF inv b hw p n])
  have sls: "?sl \<in> fl_cells s F"
    using slot_in_slots [OF find_list_less] by (simp add: fl_cells_def)
  have slm: "mem s ?sl \<noteq> None"
    using inv find_list_less [of "hw AND NOT 15"] by (auto simp: fl_inv_def)
  have pF: "prv = 0 \<or> prv \<in> F" and nF: "nxt = 0 \<or> nxt \<in> F"
    using inv b p n by (auto simp: fl_inv_def)
  have nc: "nxt \<noteq> 0 \<Longrightarrow> prev_field nxt \<in> fl_cells s F \<and> mem s (prev_field nxt) \<noteq> None"
    using inv nF by (auto simp: fl_inv_def fl_cells_def)
  have pc: "prv \<noteq> 0 \<Longrightarrow> next_field prv \<in> fl_cells s F \<and> mem s (next_field prv) \<noteq> None"
    using inv pF by (auto simp: fl_inv_def fl_cells_def)
  have c0: "cells_ok F (fl_cells s F) (mem s)"
    by (rule fl_inv_cells [OF inv])
  have cont: "cells_ok F (fl_cells s F) ?m"
    using c0 pF nF by (auto intro!: cells_ok_upd_in)
  have dom: "\<forall>a. (?m a = None) = (mem s a = None)"
    using slm nc pc by auto
  have fr: "\<forall>a. a \<notin> fl_cells s F \<longrightarrow> ?m a = mem s a"
    using sls nc pc by auto
  have "fl_inv (s\<lparr>mem := ?m\<rparr>) F"
    by (rule fl_inv_step [OF inv _ dom cont]) simp
  moreover have "heap_frame (fl_cells s F) s (s\<lparr>mem := ?m\<rparr>)"
    by (rule heap_frame_memI [OF dom fr])
  ultimately show ?thesis
    using r by blast
qed


lemma fl_cells_insert: "fl_cells s (insert b F) = insert (prev_field b) (insert (next_field b) (fl_cells s F))"
  by (auto simp: fl_cells_def)

lemma insert_free_inv:
  assumes inv: "fl_inv s F" and b: "b \<in> F \<or> fl_new s F b"
  shows "\<exists>s'. insert_free sz b s = Some s' \<and> fl_inv s' (insert b F)
            \<and> heap_frame (fl_cells s (insert b F)) s s'
            \<and> mem s' (list_slot s (find_list sz)) = Some b"
proof -
  let ?sl = "list_slot s (find_list sz)"
  let ?G = "insert b F"
  from inv find_list_less [of sz] obtain h where h: "mem s ?sl = Some h" and hF: "h = 0 \<or> h \<in> F"
    by (auto simp: fl_inv_def)
  let ?m = "(if h = NULL
         then (mem s)(?sl \<mapsto> b, next_field b \<mapsto> NULL, prev_field b \<mapsto> NULL)
         else (mem s)(next_field b \<mapsto> h, prev_field b \<mapsto> NULL, prev_field h \<mapsto> b, ?sl \<mapsto> b))"
  have r: "insert_free sz b s = Some (s\<lparr>mem := ?m\<rparr>)"
    by (rule insert_free_cases [OF inv b h])
  have sls: "?sl \<in> slots s"
    by (rule slot_in_slots) (rule find_list_less)
  have bm: "mem s (prev_field b) \<noteq> None" "mem s (next_field b) \<noteq> None"
    and bs: "prev_field b \<notin> slots s" "next_field b \<notin> slots s"
    using inv b by (auto simp: fl_inv_def fl_new_def)
  have hm: "h \<noteq> 0 \<Longrightarrow> mem s (prev_field h) \<noteq> None \<and> prev_field h \<in> fl_cells s F"
    using inv hF by (auto simp: fl_inv_def fl_cells_def)
  have G: "?G = F \<or> (\<exists>c. ?G = insert c F \<and> fl_new s F c)"
    using b by auto
  have c0: "cells_ok ?G (fl_cells s F) (mem s)"
    by (rule cells_ok_mono [OF fl_inv_cells [OF inv]]) auto
  have hG: "h = 0 \<or> h \<in> ?G" using hF by auto
  have c1: "cells_ok ?G (insert (prev_field b) (insert (next_field b) (fl_cells s F)))
              ((mem s)(next_field b \<mapsto> h, prev_field b \<mapsto> 0))"
    by (intro cells_ok_upd c0 hG) simp
  have c2: "cells_ok ?G (insert (prev_field b) (insert (next_field b) (fl_cells s F)))
              ((mem s)(next_field b \<mapsto> 0, prev_field b \<mapsto> 0))"
    by (intro cells_ok_upd c0) simp_all
  have cont: "cells_ok ?G (fl_cells s ?G) ?m"
  proof (cases "h = 0")
    case True
    have "?m = (mem s)(next_field b \<mapsto> 0, prev_field b \<mapsto> 0, ?sl \<mapsto> b)"
      using True sls bs by (auto simp: fun_eq_iff)
    then show ?thesis
      unfolding fl_cells_insert using cells_ok_upd_in [OF c2, of b ?sl] by simp
  next
    case False
    have "cells_ok ?G (insert (prev_field b) (insert (next_field b) (fl_cells s F)))
            ((mem s)(next_field b \<mapsto> h, prev_field b \<mapsto> 0, prev_field h \<mapsto> b, ?sl \<mapsto> b))"
      by (intro cells_ok_upd_in c1) simp_all
    then show ?thesis
      unfolding fl_cells_insert using False by simp
  qed
  have dom: "\<forall>a. (?m a = None) = (mem s a = None)"
    using h bm hm by auto
  have slc: "?sl \<in> fl_cells s ?G"
    using sls by (simp add: fl_cells_def)
  have fr: "\<forall>a. a \<notin> fl_cells s ?G \<longrightarrow> ?m a = mem s a"
    using slc hm unfolding fl_cells_insert by auto
  have hd: "?m ?sl = Some b"
    using sls bs by auto
  have "fl_inv (s\<lparr>mem := ?m\<rparr>) ?G"
    by (rule fl_inv_step [OF inv G dom cont])
  moreover have "heap_frame (fl_cells s ?G) s (s\<lparr>mem := ?m\<rparr>)"
    by (rule heap_frame_memI [OF dom fr])
  ultimately show ?thesis
    using r hd by (intro exI [of _ "s\<lparr>mem := ?m\<rparr>"]) simp
qed

section \<open>Heads of the free lists\<close>

lemma clear_lists_keeps:
  "clear_lists n i s = Some s' \<Longrightarrow>
     free_listp s' = free_listp s \<and> (\<forall>a. mem s a = Some 0 \<longrightarrow> mem s' a = Some 0)"
proof (induction n arbitrary: i s)
  case 0
  then show ?case by simp
next
  case (Suc n)
  from Suc.prems obtain s1 where p: "PUT (list_slot s i) 0 s = Some s1"
    and r: "clear_lists n (Suc i) s1 = Some s'"
    by (auto split: bind_splits)
  from p have s1: "s1 = s\<lparr>mem := (mem s)(list_slot s i \<mapsto> 0)\<rparr>"
    by (auto simp: PUT_def split: option.splits)
  from Suc.IH [OF r] show ?case
    unfolding s1 by auto
qed

lemma clear_lists_zero:
  "clear_lists n i s = Some s' \<Longrightarrow> \<forall>k. i \<le> k \<and> k < i + n \<longrightarrow> mem s' (list_slot s' k) = Some 0"
proof (induction n arbitrary: i s)
  case 0
  then show ?case by auto
next
  case (Suc n)
  from Suc.prems obtain s1 where p: "PUT (list_slot s i) 0 s = Some s1"
    and r: "clear_lists n (Suc i) s1 = Some s'"
    by (auto split: bind_splits)
  from p have s1: "s1 = s\<lparr>mem := (mem s)(list_slot s i \<mapsto> 0)\<rparr>"
    by (auto simp: PUT_def split: option.splits)
  have fl: "free_listp s' = free_listp s" and keep: "\<forall>a. mem s1 a = Some 0 \<longrightarrow> mem s' a = Some 0"
    using clear_lists_keeps [OF r] unfolding s1 by auto
  have sl: "\<And>k. list_slot s' k = list_slot s k"
    using fl by (simp add: list_slot_def)
  have first: "mem s' (list_slot s' i) = Some 0"
    using keep unfolding s1 sl by simp
  have rest: "\<forall>k. Suc i \<le> k \<and> k < Suc i + n \<longrightarrow> mem s' (list_slot s' k) = Some 0"
    by (rule Suc.IH [OF r])
  show ?case
  proof (intro allI impI)
    fix k assume k: "i \<le> k \<and> k < i + Suc n"
    show "mem s' (list_slot s' k) = Some 0"
    proof (cases "k = i")
      case True
      then show ?thesis using first by simp
    next
      case False
      then have "Suc i \<le> k \<and> k < Suc i + n" using k by simp
      then show ?thesis using rest by blast
    qed
  qed
qed

lemma mm_init_heads:
  assumes "mm_init s = Some (0, s')"
  shows "heads_prev_null s'"
proof -
  from assms obtain t where "clear_lists 8 0 t = Some s'"
    by (auto simp: mm_init_def Let_def split: prod.splits if_splits bind_splits)
  from clear_lists_zero [OF this] show ?thesis
    by (simp add: heads_prev_null_def)
qed


lemma insert_free_heads:
  assumes hp: "heads_prev_null s" and inv: "fl_inv s F" and new: "fl_new s F b" and nb: "b \<notin> F"
      and dh: "\<forall>k<8. k \<noteq> find_list sz \<longrightarrow>
                 mem s (list_slot s k) = Some NULL
                 \<or> mem s (list_slot s k) \<noteq> mem s (list_slot s (find_list sz))"
  shows "\<exists>s'. insert_free sz b s = Some s' \<and> mem s' (list_slot s' (find_list sz)) = Some b
            \<and> mem s' (prev_field b) = Some NULL \<and> heads_prev_null s' \<and> fl_inv s' (insert b F)"
proof -
  define i where "i = find_list sz"
  define sl where "sl = list_slot s i"
  from inv find_list_less [of sz] obtain h where h: "mem s sl = Some h" and hF: "h = 0 \<or> h \<in> F"
    unfolding sl_def i_def by (auto simp: fl_inv_def)
  define m where "m = (if h = NULL
         then (mem s)(sl \<mapsto> b, next_field b \<mapsto> NULL, prev_field b \<mapsto> NULL)
         else (mem s)(next_field b \<mapsto> h, prev_field b \<mapsto> NULL, prev_field h \<mapsto> b, sl \<mapsto> b))"
  define s' where "s' = s\<lparr>mem := m\<rparr>"
  have r: "insert_free sz b s = Some s'"
    unfolding s'_def m_def sl_def i_def
    by (rule insert_free_cases [OF inv _ h [unfolded sl_def i_def]]) (simp add: new)
  have inv': "fl_inv s' (insert b F)"
    using insert_free_inv [OF inv, of b sz] new r by auto
  have sls: "sl \<in> slots s"
    unfolding sl_def i_def by (rule slot_in_slots) (rule find_list_less)
  have bs: "prev_field b \<notin> slots s" "next_field b \<notin> slots s" "next_field b \<notin> F"
    using new by (auto simp: fl_new_def)
  have hb: "prev_field h \<noteq> prev_field b"
    using hF nb new by (auto simp: prev_field_def fl_new_def)
  have hs: "h \<noteq> 0 \<Longrightarrow> prev_field h \<notin> slots s"
    using inv hF by (auto simp: fl_inv_def)
  have s1: "sl \<noteq> prev_field b" "sl \<noteq> next_field b"
    using sls bs by auto
  have head: "m sl = Some b"
    unfolding m_def using s1 by simp
  have prevb: "m (prev_field b) = Some 0"
    unfolding m_def using s1 hb next_neq_prev [of b] by simp
  have others: "\<exists>g. m (list_slot s k) = Some g \<and> (g = 0 \<or> m (prev_field g) = Some 0)"
    if k: "k < 8" for k
  proof (cases "k = i")
    case True
    then show ?thesis using head prevb unfolding sl_def by blast
  next
    case False
    then have ne: "list_slot s k \<noteq> sl"
      unfolding sl_def i_def using slot_inj [OF k find_list_less] by auto
    have ks: "list_slot s k \<in> slots s"
      by (rule slot_in_slots [OF k])
    from hp k obtain g where g: "mem s (list_slot s k) = Some g"
      and gp: "g = 0 \<or> mem s (prev_field g) = Some 0"
      by (auto simp: heads_prev_null_def)
    have gF: "g = 0 \<or> g \<in> F"
      using inv k g by (auto simp: fl_inv_def)
    have e1: "list_slot s k \<noteq> next_field b" "list_slot s k \<noteq> prev_field b"
      using ks bs by auto
    have e2: "h \<noteq> 0 \<Longrightarrow> list_slot s k \<noteq> prev_field h"
      using ks hs by auto
    have mk: "m (list_slot s k) = Some g"
      unfolding m_def using g ne e1 e2 by simp
    show ?thesis
    proof (cases "g = 0")
      case True
      then show ?thesis using mk by simp
    next
      case gn: False
      then have gin: "g \<in> F" using gF by simp
      have g1: "prev_field g \<noteq> next_field b"
        using gin bs by (auto simp: prev_field_def)
      have g2: "prev_field g \<noteq> prev_field b"
        using gin nb by (auto simp: prev_field_def)
      have g3: "prev_field g \<noteq> sl"
        using gin inv sls by (auto simp: fl_inv_def)
      have g4: "h \<noteq> 0 \<Longrightarrow> prev_field g \<noteq> prev_field h"
        using dh k False g h gn unfolding sl_def i_def by (auto simp: prev_field_def)
      have "m (prev_field g) = mem s (prev_field g)"
        unfolding m_def using g1 g2 g3 g4 by simp
      then show ?thesis
        using mk gp gn by simp
    qed
  qed
  have "heads_prev_null s'"
    unfolding heads_prev_null_def s'_def using others by simp
  moreover have "mem s' (list_slot s' (find_list sz)) = Some b" "mem s' (prev_field b) = Some 0"
    unfolding s'_def using head prevb unfolding sl_def i_def by simp_all
  ultimately show ?thesis
    using r inv' by auto
qed

lemma remove_free_heads:
  assumes hp: "heads_prev_null s" and inv: "fl_inv s F" and c: "c \<in> F"
      and dl: "\<forall>n. mem s (next_field c) = Some n \<longrightarrow> n \<noteq> NULL \<longrightarrow> mem s (prev_field n) = Some c"
  shows "\<exists>s'. remove_free c s = Some s' \<and> heads_prev_null s' \<and> fl_inv s' F"
proof -
  from inv c obtain hw prv nxt where hw: "mem s (HDRP c) = Some hw"
    and p: "mem s (prev_field c) = Some prv" and n: "mem s (next_field c) = Some nxt"
    by (auto simp: fl_inv_def)
  define sl where "sl = list_slot s (find_list (hw AND NOT 15))"
  define m where "m = (if prv = NULL
         then (if nxt \<noteq> NULL
               then (mem s)(prev_field nxt \<mapsto> NULL, sl \<mapsto> nxt)
               else (mem s)(sl \<mapsto> NULL))
         else (if nxt = NULL then (mem s)(next_field prv \<mapsto> NULL)
               else (mem s)(next_field prv \<mapsto> nxt, prev_field nxt \<mapsto> prv)))"
  define s' where "s' = s\<lparr>mem := m\<rparr>"
  have r: "remove_free c s = Some s'"
    unfolding s'_def m_def sl_def by (rule remove_free_cases [OF inv c hw p n])
  have inv': "fl_inv s' F"
    using remove_free_inv [OF inv c] r by auto
  have c0: "c \<noteq> 0" using inv c by (auto simp: fl_inv_def)
  have pF: "prv = 0 \<or> prv \<in> F" and nF: "nxt = 0 \<or> nxt \<in> F"
    using inv c p n by (auto simp: fl_inv_def)
  have sls: "sl \<in> slots s"
    unfolding sl_def by (rule slot_in_slots) (rule find_list_less)
  have ns: "nxt \<noteq> 0 \<Longrightarrow> prev_field nxt \<notin> slots s"
    using inv nF by (auto simp: fl_inv_def)
  have ps: "prv \<noteq> 0 \<Longrightarrow> next_field prv \<notin> slots s \<and> next_field prv \<notin> F"
    using inv pF by (auto simp: fl_inv_def)
  have nprev: "nxt \<noteq> 0 \<Longrightarrow> mem s (prev_field nxt) = Some c"
    using dl n by simp
  have others: "\<exists>g. m (list_slot s k) = Some g \<and> (g = 0 \<or> m (prev_field g) = Some 0)"
    if k: "k < 8" for k
  proof -
    have ks: "list_slot s k \<in> slots s"
      by (rule slot_in_slots [OF k])
    from hp k obtain g where g: "mem s (list_slot s k) = Some g"
      and gp: "g = 0 \<or> mem s (prev_field g) = Some 0"
      by (auto simp: heads_prev_null_def)
    have gF: "g = 0 \<or> g \<in> F"
      using inv k g by (auto simp: fl_inv_def)
    have gsl: "g \<noteq> 0 \<Longrightarrow> prev_field g \<noteq> sl"
      using inv gF sls by (auto simp: fl_inv_def)
    have gnx: "g \<noteq> 0 \<Longrightarrow> nxt \<noteq> 0 \<Longrightarrow> prev_field g \<noteq> prev_field nxt"
      using gp nprev c0 by auto
    have gpv: "g \<noteq> 0 \<Longrightarrow> prv \<noteq> 0 \<Longrightarrow> prev_field g \<noteq> next_field prv"
      using gF ps by (auto simp: prev_field_def)
    have kn: "nxt \<noteq> 0 \<Longrightarrow> list_slot s k \<noteq> prev_field nxt"
      using ks ns by auto
    have kp: "prv \<noteq> 0 \<Longrightarrow> list_slot s k \<noteq> next_field prv"
      using ks ps by auto
    have gz: "g \<noteq> 0 \<Longrightarrow> mem s (prev_field g) = Some 0"
      using gp by simp
    show ?thesis
    proof (cases "prv = 0")
      case True
      show ?thesis
      proof (cases "nxt = 0")
        case nz: True
        show ?thesis
        proof (cases "list_slot s k = sl")
          case True
          then have "m (list_slot s k) = Some 0"
            unfolding m_def using \<open>prv = 0\<close> nz by simp
          then show ?thesis by simp
        next
          case False
          then have "m (list_slot s k) = Some g"
            unfolding m_def using \<open>prv = 0\<close> nz g by simp
          moreover have "g \<noteq> 0 \<Longrightarrow> m (prev_field g) = Some 0"
            unfolding m_def using \<open>prv = 0\<close> nz gz gsl by simp
          ultimately show ?thesis by blast
        qed
      next
        case nn: False
        have a: "m (prev_field nxt) = Some 0"
          unfolding m_def using \<open>prv = 0\<close> nn ns sls by auto
        show ?thesis
        proof (cases "list_slot s k = sl")
          case True
          then have "m (list_slot s k) = Some nxt"
            unfolding m_def using \<open>prv = 0\<close> nn by simp
          then show ?thesis using a by blast
        next
          case ne: False
          have "m (list_slot s k) = Some g"
            unfolding m_def using \<open>prv = 0\<close> nn ne kn g by simp
          moreover have "g \<noteq> 0 \<Longrightarrow> m (prev_field g) = Some 0"
            unfolding m_def using \<open>prv = 0\<close> nn gz gsl by simp
          ultimately show ?thesis by blast
        qed
      qed
    next
      case pz: False
      show ?thesis
      proof (cases "nxt = 0")
        case True
        have "m (list_slot s k) = Some g"
          unfolding m_def using pz True kp g by simp
        moreover have "g \<noteq> 0 \<Longrightarrow> m (prev_field g) = Some 0"
          unfolding m_def using pz True gz gpv by simp
        ultimately show ?thesis by blast
      next
        case False
        have "m (list_slot s k) = Some g"
          unfolding m_def using pz False kp kn g by simp
        moreover have "g \<noteq> 0 \<Longrightarrow> m (prev_field g) = Some 0"
          unfolding m_def using pz False gz gpv gnx by simp
        ultimately show ?thesis by blast
      qed
    qed
  qed
  have "heads_prev_null s'"
    unfolding heads_prev_null_def s'_def using others by simp
  then show ?thesis
    using r inv' by auto
qed

text \<open>
  The places that write a head or a link keep the invariant of the heads on well-formed
  lists. The invariant: the head of every size class is NULL or a block whose \<open>prev\<close> link
  is NULL. \<open>mm_init\<close> establishes it (all heads are NULL). \<open>insert_free\<close>, given a block
  that is not yet listed, makes the block the head of its class with \<open>prev\<close> NULL and keeps
  the invariant for all classes. \<open>remove_free\<close> keeps it in each of its four cases, for a
  block whose successor, if any, points back to it (which is what makes a block with
  \<open>prev = NULL\<close> the head). Both return, under the conditions on the cells of the lists
  that \<open>fl_inv\<close> and \<open>fl_new\<close> state, and keep \<open>fl_inv\<close>. No other code of mm.c writes a
  head or a link.
\<close>

theorem heads_prev_null_maintained:
  "(mm_init s0 = Some (0, s1) \<longrightarrow> heads_prev_null s1)
   \<and> (heads_prev_null s \<and> fl_inv s F \<and> fl_new s F b \<and> b \<notin> F
        \<and> (\<forall>k<8. k \<noteq> find_list sz \<longrightarrow>
               mem s (list_slot s k) = Some NULL
               \<or> mem s (list_slot s k) \<noteq> mem s (list_slot s (find_list sz)))
      \<longrightarrow> (\<exists>s'. insert_free sz b s = Some s' \<and> mem s' (list_slot s' (find_list sz)) = Some b
               \<and> mem s' (prev_field b) = Some NULL \<and> heads_prev_null s'
               \<and> fl_inv s' (insert b F)))
   \<and> (heads_prev_null s \<and> fl_inv s F \<and> c \<in> F
        \<and> (\<forall>n. mem s (next_field c) = Some n \<longrightarrow> n \<noteq> NULL \<longrightarrow> mem s (prev_field n) = Some c)
      \<longrightarrow> (\<exists>s'. remove_free c s = Some s' \<and> heads_prev_null s' \<and> fl_inv s' F))"
  using mm_init_heads [of s0 s1] insert_free_heads [of s F b sz] remove_free_heads [of s F c]
  by blast

lemma ex_less_8: "(\<exists>i<8::nat. P i) = (P 0 \<or> P 1 \<or> P 2 \<or> P 3 \<or> P 4 \<or> P 5 \<or> P 6 \<or> P 7)"
  using all_less_8 [of "\<lambda>i. \<not> P i"] by blast

lemma in_slots: "(a \<in> slots s) = (\<exists>k<8. a = list_slot s k)"
  by (auto simp: slots_def)

lemmas fl_eval = fl_inv_def fl_new_def heads_prev_null_def in_slots all_less_8 ex_less_8

theorem heads_prev_null_maintained_witness:
  "heads_prev_null heap_init \<and> heads_prev_null heap_two \<and> fl_inv heap_two {0x1070, 0x1100}
   \<and> (\<exists>s'. insert_free 80 0x10C0 heap_two = Some s'
            \<and> mem s' (list_slot s' (find_list 80)) = Some 0x10C0
            \<and> mem s' (prev_field 0x10C0) = Some NULL \<and> heads_prev_null s'
            \<and> fl_inv s' (insert 0x10C0 {0x1070, 0x1100}))
   \<and> (\<exists>s'. remove_free 0x1070 heap_two = Some s' \<and> heads_prev_null s'
            \<and> fl_inv s' {0x1070, 0x1100})"
proof -
  note t = heads_prev_null_maintained [of "fresh_arena 0x1000 0x2000" heap_init heap_two
      "{0x1070, 0x1100}" "0x10C0" 80 "0x1070"]
  have hp: "heads_prev_null heap_two"
    by (simp add: fl_eval heap_two_def run_simps)
  have inv: "fl_inv heap_two {0x1070, 0x1100}"
    by (simp add: fl_eval heap_two_def run_simps)
  have new: "fl_new heap_two {0x1070, 0x1100} 0x10C0" "(0x10C0 :: addr) \<notin> {0x1070, 0x1100}"
    by (simp_all add: fl_eval heap_two_def run_simps)
  have dh: "\<forall>k<8. k \<noteq> find_list 80 \<longrightarrow>
               mem heap_two (list_slot heap_two k) = Some NULL
               \<or> mem heap_two (list_slot heap_two k) \<noteq> mem heap_two (list_slot heap_two (find_list 80))"
    by (simp add: all_less_8 find_list_def heap_two_def run_simps)
  have c: "(0x1070 :: addr) \<in> {0x1070, 0x1100}"
    by simp
  have dl: "\<forall>n. mem heap_two (next_field 0x1070) = Some n \<longrightarrow> n \<noteq> NULL
               \<longrightarrow> mem heap_two (prev_field n) = Some 0x1070"
    by (simp add: heap_two_def run_simps)
  from t heap_init_reached have a: "heads_prev_null heap_init"
    by blast
  from t hp inv new dh have b: "\<exists>s'. insert_free 80 0x10C0 heap_two = Some s'
            \<and> mem s' (list_slot s' (find_list 80)) = Some 0x10C0
            \<and> mem s' (prev_field 0x10C0) = Some NULL \<and> heads_prev_null s'
            \<and> fl_inv s' (insert 0x10C0 {0x1070, 0x1100})"
    by blast
  from t hp inv c dl have d: "\<exists>s'. remove_free 0x1070 heap_two = Some s' \<and> heads_prev_null s'
            \<and> fl_inv s' {0x1070, 0x1100}"
    by blast
  show ?thesis
    using a hp inv b d by blast
qed

section \<open>Coalescing\<close>

lemma frame_mem: "heap_frame C s s' \<Longrightarrow> a \<notin> C \<Longrightarrow> mem s' a = mem s a"
  by (simp add: heap_frame_def)

lemma frame_dom: "heap_frame C s s' \<Longrightarrow> (mem s' a = None) = (mem s a = None)"
  by (simp add: heap_frame_def)

lemma fl_cells_frame: "heap_frame C s s' \<Longrightarrow> fl_cells s' G = fl_cells s G"
  by (simp add: heap_frame_def fl_cells_def slots_def list_slot_def)

lemma fl_cells_mono: "fl_cells s F \<subseteq> fl_cells s (insert b F)"
  by (auto simp: fl_cells_def)

lemma fl_inv_frame:
  assumes inv: "fl_inv s F" and fr: "heap_frame C s s'" and dj: "C \<inter> fl_cells s F = {}"
  shows "fl_inv s' F"
proof -
  have sl: "slots s' = slots s" "\<And>k. list_slot s' k = list_slot s k"
    using fr by (simp_all add: heap_frame_def slots_def list_slot_def)
  have same: "\<And>a. a \<in> fl_cells s F \<Longrightarrow> mem s' a = mem s a"
    using fr dj by (auto simp: heap_frame_def)
  have a1: "\<And>k. k < 8 \<Longrightarrow> mem s' (list_slot s k) = mem s (list_slot s k)"
    by (rule same) (simp add: fl_cells_def slots_def)
  have a2: "\<And>b. b \<in> F \<Longrightarrow> mem s' (prev_field b) = mem s (prev_field b)"
    by (rule same) (simp add: fl_cells_def)
  have a3: "\<And>b. b \<in> F \<Longrightarrow> mem s' (next_field b) = mem s (next_field b)"
    by (rule same) (simp add: fl_cells_def)
  have a4: "\<And>a. (\<exists>y. mem s' a = Some y) = (\<exists>y. mem s a = Some y)"
    using fr by (simp add: heap_frame_def flip: not_None_eq)
  show ?thesis
    using inv unfolding fl_inv_def sl by (simp add: a1 a2 a3 a4)
qed

lemma fl_new_frame: "fl_new s F b \<Longrightarrow> heap_frame C s s' \<Longrightarrow> fl_new s' F b"
  by (simp add: fl_new_def heap_frame_def slots_def list_slot_def)

lemma GET_SIZE_frame: "heap_frame C s s' \<Longrightarrow> a \<notin> C \<Longrightarrow> GET_SIZE s' a = GET_SIZE s a"
  by (simp add: GET_SIZE_def GET_def heap_frame_def)

lemma GET_ALLOC_frame: "heap_frame C s s' \<Longrightarrow> a \<notin> C \<Longrightarrow> GET_ALLOC s' a = GET_ALLOC s a"
  by (simp add: GET_ALLOC_def GET_def heap_frame_def)

lemma NEXT_BLKP_frame: "heap_frame C s s' \<Longrightarrow> HDRP b \<notin> C \<Longrightarrow> NEXT_BLKP s' b = NEXT_BLKP s b"
  by (simp add: NEXT_BLKP_def GET_SIZE_def GET_def heap_frame_def HDRP_def)

lemma FTRP_frame: "heap_frame C s s' \<Longrightarrow> HDRP b \<notin> C \<Longrightarrow> FTRP s' b = FTRP s b"
  by (simp add: FTRP_def GET_SIZE_def GET_def heap_frame_def)

lemma PREV_BLKP_frame:
  "heap_frame C s s' \<Longrightarrow> b - DSIZE \<notin> C \<Longrightarrow> PREV_BLKP s' b = PREV_BLKP s b"
  by (simp add: PREV_BLKP_def GET_SIZE_def GET_def heap_frame_def)

lemma getsize_mult_neg: "((x :: 64 word) AND - 16) AND 15 = 0"
  using getsize_mult [of x] by simp

lemma size_clear_neg: "(x :: 64 word) AND 15 = 0 \<Longrightarrow> x AND - 16 = x"
  using size_clear [of x] by simp

lemma GET_SIZE_mult16: "GET_SIZE s a = Some n \<Longrightarrow> n AND 15 = 0"
  by (auto simp: GET_SIZE_def getsize_mult_neg)

lemma GET_SIZE_mapped: "GET_SIZE s a = Some n \<Longrightarrow> mem s a \<noteq> None"
  by (auto simp: GET_SIZE_def GET_def)

lemma NEXT_BLKP_eq: "GET_SIZE s (HDRP b) = Some n \<Longrightarrow> NEXT_BLKP s b = Some (b + n)"
  by (simp add: NEXT_BLKP_def HDRP_def)

lemma FTRP_eq: "GET_SIZE s (HDRP b) = Some n \<Longrightarrow> FTRP s b = Some (b + n - DSIZE)"
  by (simp add: FTRP_def)

lemma tag_written:
  assumes "n AND 15 = 0" and "mem s a = Some (PACK n 0)"
  shows "GET_SIZE s a = Some n" and "GET_ALLOC s a = Some 0"
  using assms by (simp_all add: GET_SIZE_def GET_ALLOC_def GET_def PACK_def size_clear_neg alloc_pack0)

lemma mult16_neq8: "(n :: 64 word) AND 15 = 0 \<Longrightarrow> n \<noteq> 8"
  by auto

lemma hdr_neq_ftr: "(n :: 64 word) AND 15 = 0 \<Longrightarrow> HDRP b \<noteq> b + n - DSIZE"
proof
  assume m: "n AND 15 = 0" and e: "HDRP b = b + n - DSIZE"
  from e have "n = 8"
    by (simp add: HDRP_def algebra_simps)
  with m show False
    by simp
qed

lemma free_tags_written:
  assumes m: "n AND 15 = 0"
      and h: "mem s (HDRP b) = Some (PACK n 0)" and f: "mem s (b + n - DSIZE) = Some (PACK n 0)"
  shows "free_tags s b n"
  unfolding free_tags_def
  using tag_written [OF m h] tag_written [OF m f] FTRP_eq [of s b n] by simp

lemma dll_cong:
  assumes "dll F H P N C"
      and "\<And>k. k < 8 \<Longrightarrow> H' k = H k" and "\<And>b. b \<in> F \<Longrightarrow> P' b = P b"
      and "\<And>b. b \<in> F \<Longrightarrow> N' b = N b" and "\<And>b. b \<in> F \<Longrightarrow> C' b = C b"
  shows "dll F H' P' N' C'"
  using assms(1) unfolding dll_def by (simp add: assms(2-5))

lemma dll_remove:
  assumes d: "dll F H P N C" and b: "b \<in> F"
  shows "dll (F - {b}) (if P b = 0 then H(C b := N b) else H) (P(N b := P b)) (N(P b := N b)) C"
proof -
  define p n where "p = P b" and "n = N b"
  have z: "0 \<notin> F"
    using d by (simp add: dll_def)
  have rH: "\<And>k. k < 8 \<Longrightarrow> H k = 0 \<or> H k \<in> F"
    and rP: "\<And>c. c \<in> F \<Longrightarrow> P c = 0 \<or> P c \<in> F"
    and rN: "\<And>c. c \<in> F \<Longrightarrow> N c = 0 \<or> N c \<in> F"
    and rC: "\<And>c. c \<in> F \<Longrightarrow> C c < 8"
    and A: "\<And>x c. x \<in> F \<Longrightarrow> c \<in> F \<Longrightarrow> (N c = x) = (P x = c)"
    and B: "\<And>x k. x \<in> F \<Longrightarrow> k < 8 \<Longrightarrow> (H k = x) = (P x = 0 \<and> k = C x)"
    and Cc: "\<And>x c. x \<in> F \<Longrightarrow> c \<in> F \<Longrightarrow> N c = x \<Longrightarrow> C x = C c"
    using d by (simp_all add: dll_def)
  have pP: "P b = p" and nN: "N b = n"
    by (simp_all add: p_def n_def)
  have pF: "p = 0 \<or> p \<in> F" and nF: "n = 0 \<or> n \<in> F"
    using rP [OF b] rN [OF b] unfolding pP nN by blast+
  have eqb: "(p = b) = (n = b)"
    using A [OF b b] unfolding pP nN by blast
  have p0: "p = 0 \<Longrightarrow> n \<noteq> b"
    using eqb z b by blast
  have np: "n \<noteq> 0 \<Longrightarrow> P n = b"
    using A [of n b] nF b nN by blast
  have pn: "p \<noteq> 0 \<Longrightarrow> N p = b"
    using A [of b p] pF b pP by blast
  have nc: "n \<noteq> 0 \<Longrightarrow> C n = C b"
    using Cc [of n b] nF b nN by blast
  have hb: "p = 0 \<Longrightarrow> H (C b) = b"
    using B [OF b rC [OF b]] pP by blast
  have Pb: "P c \<noteq> b" if "c \<in> F" "c \<noteq> n" for c
    using A [of c b] that b nN by auto
  have Nb: "N c \<noteq> b" if "c \<in> F" "c \<noteq> p" for c
    using A [of b c] that b pP by auto
  have Hb: "H k \<noteq> b" if "k < 8" "p = 0 \<Longrightarrow> k \<noteq> C b" for k
    using B [of b k] that b pP by auto
  define H' where "H' = (if p = 0 then H(C b := n) else H)"
  define P' where "P' = P(n := p)"
  define N' where "N' = N(p := n)"
  define G where "G = F - {b}"
  have G: "\<And>x. x \<in> G \<Longrightarrow> x \<in> F \<and> x \<noteq> b \<and> x \<noteq> 0"
    using z by (auto simp: G_def)
  have pG: "p \<noteq> b \<Longrightarrow> p = 0 \<or> p \<in> G" and nG: "n \<noteq> b \<Longrightarrow> n = 0 \<or> n \<in> G"
    using pF nF by (auto simp: G_def)
  have HG: "H k = 0 \<or> H k \<in> G" if "k < 8" "p = 0 \<Longrightarrow> k \<noteq> C b" for k
    using rH [OF that(1)] Hb [OF that] by (auto simp: G_def)
  have PG: "P c = 0 \<or> P c \<in> G" if "c \<in> G" "c \<noteq> n" for c
    using rP [of c] Pb [of c] G [OF that(1)] that(2) by (auto simp: G_def)
  have NG: "N c = 0 \<or> N c \<in> G" if "c \<in> G" "c \<noteq> p" for c
    using rN [of c] Nb [of c] G [OF that(1)] that(2) by (auto simp: G_def)
  have c1: "H' k = 0 \<or> H' k \<in> G" if k: "k < 8" for k
  proof (cases "p = 0 \<and> k = C b")
    case True
    then have "H' k = n"
      by (simp add: H'_def)
    then show ?thesis
      using nG p0 True by simp
  next
    case False
    then have "H' k = H k"
      by (auto simp: H'_def)
    then show ?thesis
      using HG [OF k] False by auto
  qed
  have c2: "(P' c = 0 \<or> P' c \<in> G) \<and> (N' c = 0 \<or> N' c \<in> G) \<and> C c < 8" if c: "c \<in> G" for c
  proof -
    have cb: "c \<noteq> b" "c \<in> F"
      using G [OF c] by simp_all
    have "P' c = 0 \<or> P' c \<in> G"
    proof (cases "c = n")
      case True
      then have "P' c = p" "n \<noteq> b"
        using cb by (simp_all add: P'_def)
      then show ?thesis
        using pG eqb by simp
    next
      case False
      then have "P' c = P c"
        by (simp add: P'_def)
      then show ?thesis
        using PG [OF c False] by simp
    qed
    moreover have "N' c = 0 \<or> N' c \<in> G"
    proof (cases "c = p")
      case True
      then have "N' c = n" "p \<noteq> b"
        using cb by (simp_all add: N'_def)
      then show ?thesis
        using nG eqb by simp
    next
      case False
      then have "N' c = N c"
        by (simp add: N'_def)
      then show ?thesis
        using NG [OF c False] by simp
    qed
    ultimately show ?thesis
      using rC [OF cb(2)] by simp
  qed
  have c3: "(N' c = x) = (P' x = c)" if x: "x \<in> G" and c: "c \<in> G" for x c
  proof -
    have xf: "x \<in> F" "x \<noteq> b" "x \<noteq> 0" and cf: "c \<in> F" "c \<noteq> b" "c \<noteq> 0"
      using G [OF x] G [OF c] by simp_all
    have base: "(N c = x) = (P x = c)"
      by (rule A [OF xf(1) cf(1)])
    show ?thesis
    proof (cases "c = p")
      case cp: True
      then have p0': "p \<noteq> 0"
        using cf by simp
      have l: "N' c = n"
        using cp by (simp add: N'_def)
      show ?thesis
      proof (cases "x = n")
        case True
        then show ?thesis
          using l cp by (simp add: P'_def)
      next
        case False
        have "P x \<noteq> p"
        proof
          assume "P x = p"
          then have "N p = x"
            using A [OF xf(1), of p] cp cf(1) by simp
          then show False
            using pn [OF p0'] xf(2) by simp
        qed
        then show ?thesis
          using l cp False by (simp add: P'_def)
      qed
    next
      case cp: False
      have l: "N' c = N c"
        using cp by (simp add: N'_def)
      show ?thesis
      proof (cases "x = n")
        case True
        then have n0: "n \<noteq> 0"
          using xf by simp
        have "N c \<noteq> n"
        proof
          assume "N c = n"
          then have "P n = c"
            using A [of n c] True xf(1) cf(1) by simp
          then show False
            using np [OF n0] cf(2) by simp
        qed
        then show ?thesis
          using l cp True by (simp add: P'_def)
      next
        case False
        then show ?thesis
          using l base by (simp add: P'_def)
      qed
    qed
  qed
  have c4: "(H' k = x) = (P' x = 0 \<and> k = C x)" if x: "x \<in> G" and k: "k < 8" for x k
  proof -
    have xf: "x \<in> F" "x \<noteq> b" "x \<noteq> 0"
      using G [OF x] by simp_all
    have base: "(H k = x) = (P x = 0 \<and> k = C x)"
      by (rule B [OF xf(1) k])
    show ?thesis
    proof (cases "p = 0")
      case p0': True
      have hcb: "H (C b) = b"
        by (rule hb [OF p0'])
      show ?thesis
      proof (cases "x = n")
        case True
        then have n0: "n \<noteq> 0"
          using xf by simp
        have r: "P' x = 0" "C x = C b"
          using True p0' nc [OF n0] by (simp_all add: P'_def)
        have "H' k = x \<longleftrightarrow> k = C b"
        proof (cases "k = C b")
          case True
          then show ?thesis
            using p0' \<open>x = n\<close> by (simp add: H'_def)
        next
          case False
          have "H k \<noteq> n"
            using B [of n k] xf(1) k True np [OF n0] b z by auto
          then show ?thesis
            using False p0' True by (simp add: H'_def)
        qed
        then show ?thesis
          using r by simp
      next
        case xn: False
        have px: "P' x = P x"
          using xn by (simp add: P'_def)
        show ?thesis
        proof (cases "k = C b")
          case True
          have "\<not> (P x = 0 \<and> k = C x)"
            using base hcb True xf(2) by auto
          then show ?thesis
            using True p0' xn px by (auto simp: H'_def)
        next
          case False
          then show ?thesis
            using base px p0' by (simp add: H'_def)
        qed
      qed
    next
      case pz: False
      have h: "H' k = H k"
        using pz by (simp add: H'_def)
      show ?thesis
      proof (cases "x = n")
        case True
        then have n0: "n \<noteq> 0"
          using xf by simp
        have "P n = b"
          by (rule np [OF n0])
        then have "H k \<noteq> n"
          using B [of n k] True xf(1) k b z by auto
        then show ?thesis
          using h True pz by (simp add: P'_def)
      next
        case False
        then show ?thesis
          using h base by (simp add: P'_def)
      qed
    qed
  qed
  have c5: "C x = C c" if x: "x \<in> G" and c: "c \<in> G" and e: "N' c = x" for x c
  proof -
    have xf: "x \<in> F" "x \<noteq> b" "x \<noteq> 0" and cf: "c \<in> F" "c \<noteq> b" "c \<noteq> 0"
      using G [OF x] G [OF c] by simp_all
    show ?thesis
    proof (cases "c = p")
      case True
      then have xn: "x = n" and p0': "p \<noteq> 0"
        using e cf by (simp_all add: N'_def)
      have "C n = C b"
        using nc xn xf by simp
      moreover have "C b = C p"
        using Cc [OF b _ pn [OF p0']] True cf(1) by simp
      ultimately show ?thesis
        using xn True by simp
    next
      case False
      then have "N c = x"
        using e by (simp add: N'_def)
      then show ?thesis
        by (rule Cc [OF xf(1) cf(1)])
    qed
  qed
  have "dll G H' P' N' C"
    unfolding dll_def
  proof (intro conjI)
    show "NULL \<notin> G"
      using z by (simp add: G_def)
    show "\<forall>k<8. H' k = NULL \<or> H' k \<in> G"
      using c1 by simp
    show "\<forall>b\<in>G. (P' b = NULL \<or> P' b \<in> G) \<and> (N' b = NULL \<or> N' b \<in> G) \<and> C b < 8"
      using c2 by simp
    show "\<forall>b\<in>G. \<forall>c\<in>G. (N' c = b) = (P' b = c)"
      using c3 by simp
    show "\<forall>b\<in>G. \<forall>k<8. (H' k = b) = (P' b = NULL \<and> k = C b)"
      using c4 by simp
    show "\<forall>b\<in>G. \<forall>c\<in>G. N' c = b \<longrightarrow> C b = C c"
      using c5 by simp
  qed
  then show ?thesis
    unfolding G_def H'_def P'_def N'_def pP nN .
qed

lemma dll_insert:
  assumes d: "dll F H P N C" and b: "b \<notin> F" "b \<noteq> 0" and k: "k < 8"
  shows "dll (insert b F) (H(k := b)) ((P(H k := b))(b := 0)) (N(b := H k)) (C(b := k))"
proof -
  define h where "h = H k"
  define H' where "H' = H(k := b)"
  define P' where "P' = (P(h := b))(b := 0)"
  define N' where "N' = N(b := h)"
  define C' where "C' = C(b := k)"
  define G where "G = insert b F"
  have z: "0 \<notin> F"
    using d by (simp add: dll_def)
  have rH: "\<And>k. k < 8 \<Longrightarrow> H k = 0 \<or> H k \<in> F"
    and rP: "\<And>c. c \<in> F \<Longrightarrow> P c = 0 \<or> P c \<in> F"
    and rN: "\<And>c. c \<in> F \<Longrightarrow> N c = 0 \<or> N c \<in> F"
    and rC: "\<And>c. c \<in> F \<Longrightarrow> C c < 8"
    and A: "\<And>x c. x \<in> F \<Longrightarrow> c \<in> F \<Longrightarrow> (N c = x) = (P x = c)"
    and B: "\<And>x k. x \<in> F \<Longrightarrow> k < 8 \<Longrightarrow> (H k = x) = (P x = 0 \<and> k = C x)"
    and Cc: "\<And>x c. x \<in> F \<Longrightarrow> c \<in> F \<Longrightarrow> N c = x \<Longrightarrow> C x = C c"
    using d by (simp_all add: dll_def)
  have hF: "h = 0 \<or> h \<in> F"
    using rH [OF k] by (simp add: h_def)
  have hb: "h \<noteq> b"
    using hF b by auto
  have hP: "h \<noteq> 0 \<Longrightarrow> P h = 0 \<and> C h = k"
    using B [of h k] hF k by (auto simp: h_def)
  have Hb: "H j \<noteq> b" if "j < 8" for j
    using rH [OF that] b by auto
  have Pb: "P c \<noteq> b" and Nb: "N c \<noteq> b" if "c \<in> F" for c
    using rP [OF that] rN [OF that] b by auto
  have Nh: "N c \<noteq> h" if c: "c \<in> F" and h0: "h \<noteq> 0" for c
  proof
    assume "N c = h"
    then have "P h = c"
      using A [of h c] hF h0 c by simp
    then show False
      using hP [OF h0] c z by simp
  qed
  have c1: "H' j = 0 \<or> H' j \<in> G" if "j < 8" for j
    using rH [OF that] by (auto simp: H'_def G_def)
  have c2: "(P' c = 0 \<or> P' c \<in> G) \<and> (N' c = 0 \<or> N' c \<in> G) \<and> C' c < 8" if c: "c \<in> G" for c
  proof (cases "c = b")
    case True
    then show ?thesis
      using hF k by (auto simp: P'_def N'_def C'_def G_def)
  next
    case False
    then have cf: "c \<in> F"
      using c by (simp add: G_def)
    have "P' c = 0 \<or> P' c \<in> G"
      using rP [OF cf] False by (auto simp: P'_def G_def)
    moreover have "N' c = N c" "C' c = C c"
      using False by (simp_all add: N'_def C'_def)
    ultimately show ?thesis
      using rN [OF cf] rC [OF cf] by (auto simp: G_def)
  qed
  have c3: "(N' c = x) = (P' x = c)" if x: "x \<in> G" and c: "c \<in> G" for x c
  proof (cases "c = b")
    case cb: True
    have l: "N' c = h"
      using cb by (simp add: N'_def)
    show ?thesis
    proof (cases "x = b")
      case True
      then show ?thesis
        using l hb cb b by (simp add: P'_def)
    next
      case False
      then have xf: "x \<in> F"
        using x by (simp add: G_def)
      show ?thesis
      proof (cases "x = h")
        case True
        then show ?thesis
          using l cb False by (simp add: P'_def)
      next
        case xh: False
        have "P' x = P x"
          using False xh by (simp add: P'_def)
        then show ?thesis
          using l cb xh Pb [OF xf] by auto
      qed
    qed
  next
    case cb: False
    then have cf: "c \<in> F"
      using c by (simp add: G_def)
    have l: "N' c = N c"
      using cb by (simp add: N'_def)
    show ?thesis
    proof (cases "x = b")
      case True
      then show ?thesis
        using l Nb [OF cf] cf z by (auto simp: P'_def)
    next
      case False
      then have xf: "x \<in> F"
        using x by (simp add: G_def)
      show ?thesis
      proof (cases "x = h")
        case True
        then have h0: "h \<noteq> 0"
          using xf z by auto
        have "P' x = b"
          using True hb by (simp add: P'_def)
        then show ?thesis
          using l Nh [OF cf h0] True cb by auto
      next
        case xh: False
        have "P' x = P x"
          using False xh by (simp add: P'_def)
        then show ?thesis
          using l A [OF xf cf] by simp
      qed
    qed
  qed
  have c4: "(H' j = x) = (P' x = 0 \<and> j = C' x)" if x: "x \<in> G" and j: "j < 8" for x j
  proof (cases "x = b")
    case True
    have "(H' j = b) = (j = k)"
      using Hb [OF j] by (auto simp: H'_def)
    then show ?thesis
      using True by (simp add: P'_def C'_def)
  next
    case False
    then have xf: "x \<in> F"
      using x by (simp add: G_def)
    have cx: "C' x = C x"
      using False by (simp add: C'_def)
    show ?thesis
    proof (cases "x = h")
      case True
      then have h0: "h \<noteq> 0"
        using xf z by auto
      have "P' x = b"
        using True hb by (simp add: P'_def)
      moreover have "H' j \<noteq> h"
      proof (cases "j = k")
        case True
        then show ?thesis
          using hb by (simp add: H'_def)
      next
        case jk: False
        have "H j \<noteq> h"
          using B [of h j] hP [OF h0] True xf j jk by auto
        then show ?thesis
          using jk by (simp add: H'_def)
      qed
      ultimately show ?thesis
        using True b by simp
    next
      case xh: False
      have px: "P' x = P x"
        using False xh by (simp add: P'_def)
      show ?thesis
      proof (cases "j = k")
        case True
        have "\<not> (P x = 0 \<and> k = C x)"
          using B [OF xf k] xh by (auto simp: h_def)
        then show ?thesis
          using True False px cx by (simp add: H'_def)
      next
        case jk: False
        then show ?thesis
          using B [OF xf j] px cx by (simp add: H'_def)
      qed
    qed
  qed
  have c5: "C' x = C' c" if x: "x \<in> G" and c: "c \<in> G" and e: "N' c = x" for x c
  proof (cases "c = b")
    case True
    then have xh: "x = h"
      using e by (simp add: N'_def)
    then have h0: "h \<noteq> 0" "h \<in> F"
      using x hb z by (auto simp: G_def)
    show ?thesis
      using hP [OF h0(1)] xh hb True by (simp add: C'_def)
  next
    case False
    then have cf: "c \<in> F" and nx: "N c = x"
      using c e by (simp_all add: G_def N'_def)
    then have xb: "x \<noteq> b"
      using Nb [OF cf] by auto
    then have xf: "x \<in> F"
      using x by (simp add: G_def)
    show ?thesis
      using Cc [OF xf cf nx] xb False by (simp add: C'_def)
  qed
  have "dll G H' P' N' C'"
    unfolding dll_def
  proof (intro conjI)
    show "NULL \<notin> G"
      using z b by (simp add: G_def)
    show "\<forall>k<8. H' k = NULL \<or> H' k \<in> G"
      using c1 by simp
    show "\<forall>b\<in>G. (P' b = NULL \<or> P' b \<in> G) \<and> (N' b = NULL \<or> N' b \<in> G) \<and> C' b < 8"
      using c2 by simp
    show "\<forall>b\<in>G. \<forall>c\<in>G. (N' c = b) = (P' b = c)"
      using c3 by simp
    show "\<forall>b\<in>G. \<forall>k<8. (H' k = b) = (P' b = NULL \<and> k = C' b)"
      using c4 by simp
    show "\<forall>b\<in>G. \<forall>c\<in>G. N' c = b \<longrightarrow> C' b = C' c"
      using c5 by simp
  qed
  then show ?thesis
    unfolding G_def H'_def P'_def N'_def C'_def h_def .
qed

lemma dll_mono_range:
  assumes "dll F H P N C"
  shows "NULL \<notin> F" and "\<And>k. k < 8 \<Longrightarrow> H k = NULL \<or> H k \<in> F"
    and "\<And>b. b \<in> F \<Longrightarrow> P b = NULL \<or> P b \<in> F" and "\<And>b. b \<in> F \<Longrightarrow> N b = NULL \<or> N b \<in> F"
  using assms by (simp_all add: dll_def)

lemma word_at_Some: "mem s a = Some v \<Longrightarrow> word_at s a = v"
  by (simp add: word_at_def)

lemma word_at_frame: "heap_frame C s s' \<Longrightarrow> a \<notin> C \<Longrightarrow> word_at s' a = word_at s a"
  by (simp add: word_at_def heap_frame_def)

lemma head_of_frame: "heap_frame C s s' \<Longrightarrow> list_slot s k \<notin> C \<Longrightarrow> head_of s' k = head_of s k"
  using word_at_frame [of C s s' "list_slot s k"] heap_frame_slots [of C s s' k]
  by (simp add: head_of_def)

lemma class_of_frame: "heap_frame C s s' \<Longrightarrow> HDRP b \<notin> C \<Longrightarrow> class_of s' b = class_of s b"
  using word_at_frame [of C s s' "HDRP b"] by (simp add: class_of_def)

lemma prev_of_frame: "heap_frame C s s' \<Longrightarrow> prev_field b \<notin> C \<Longrightarrow> prev_of s' b = prev_of s b"
  using word_at_frame [of C s s' "prev_field b"] by (simp add: prev_of_def)

lemma next_of_frame: "heap_frame C s s' \<Longrightarrow> next_field b \<notin> C \<Longrightarrow> next_of s' b = next_of s b"
  using word_at_frame [of C s s' "next_field b"] by (simp add: next_of_def)

lemma class_of_size: "GET_SIZE s (HDRP b) = Some n \<Longrightarrow> class_of s b = find_list n"
  by (auto simp: class_of_def word_at_def GET_SIZE_def GET_def)

lemma prev_field_inj: "(prev_field c = prev_field d) = (c = d)"
  by (simp add: prev_field_def)

lemma next_field_inj: "(next_field c = next_field d) = (c = d)"
  by (simp add: next_field_def)

lemma HDRP_inj: "(HDRP c = HDRP d) = (c = d)"
  by (simp add: HDRP_def)

lemma fl_sep:
  assumes "fl_inv s F" and "c \<in> F"
  shows "k < 8 \<Longrightarrow> prev_field c \<noteq> list_slot s k" and "k < 8 \<Longrightarrow> next_field c \<noteq> list_slot s k"
    and "d \<in> F \<Longrightarrow> next_field c \<noteq> prev_field d"
proof -
  have a: "prev_field c \<notin> slots s" "next_field c \<notin> slots s" "next_field c \<notin> F"
    using assms by (auto simp: fl_inv_def)
  show "k < 8 \<Longrightarrow> prev_field c \<noteq> list_slot s k"
    using a(1) slot_in_slots [of k s] by auto
  show "k < 8 \<Longrightarrow> next_field c \<noteq> list_slot s k"
    using a(2) slot_in_slots [of k s] by auto
  show "d \<in> F \<Longrightarrow> next_field c \<noteq> prev_field d"
    using a(3) by (auto simp: prev_field_def)
qed

lemma fl_inv_vals:
  assumes "fl_inv s F"
  shows "k < 8 \<Longrightarrow> mem s (list_slot s k) = Some (head_of s k)"
    and "c \<in> F \<Longrightarrow> mem s (prev_field c) = Some (prev_of s c)"
    and "c \<in> F \<Longrightarrow> mem s (next_field c) = Some (next_of s c)"
    and "k < 8 \<Longrightarrow> head_of s k = 0 \<or> head_of s k \<in> F"
    and "c \<in> F \<Longrightarrow> prev_of s c = 0 \<or> prev_of s c \<in> F"
    and "c \<in> F \<Longrightarrow> next_of s c = 0 \<or> next_of s c \<in> F"
proof -
  have h: "\<And>k. k < 8 \<Longrightarrow> \<exists>h. mem s (list_slot s k) = Some h \<and> (h = 0 \<or> h \<in> F)"
    and p: "\<And>c. c \<in> F \<Longrightarrow> \<exists>p. mem s (prev_field c) = Some p \<and> (p = 0 \<or> p \<in> F)"
    and n: "\<And>c. c \<in> F \<Longrightarrow> \<exists>n. mem s (next_field c) = Some n \<and> (n = 0 \<or> n \<in> F)"
    using assms by (simp_all add: fl_inv_def)
  show "k < 8 \<Longrightarrow> mem s (list_slot s k) = Some (head_of s k)"
    using h [of k] by (auto simp: head_of_def word_at_def)
  show "c \<in> F \<Longrightarrow> mem s (prev_field c) = Some (prev_of s c)"
    using p [of c] by (auto simp: prev_of_def word_at_def)
  show "c \<in> F \<Longrightarrow> mem s (next_field c) = Some (next_of s c)"
    using n [of c] by (auto simp: next_of_def word_at_def)
  show "k < 8 \<Longrightarrow> head_of s k = 0 \<or> head_of s k \<in> F"
    using h [of k] by (auto simp: head_of_def word_at_def)
  show "c \<in> F \<Longrightarrow> prev_of s c = 0 \<or> prev_of s c \<in> F"
    using p [of c] by (auto simp: prev_of_def word_at_def)
  show "c \<in> F \<Longrightarrow> next_of s c = 0 \<or> next_of s c \<in> F"
    using n [of c] by (auto simp: next_of_def word_at_def)
qed

lemma remove_free_cells:
  assumes inv: "fl_inv s F" and b: "b \<in> F"
  shows "\<exists>s'. remove_free b s = Some s' \<and> fl_inv s' F \<and> heap_frame (fl_cells s F) s s'
     \<and> (\<forall>a. word_at s' a =
          (if a = list_slot s (class_of s b) \<and> prev_of s b = 0 then next_of s b
           else if a = prev_field (next_of s b) \<and> next_of s b \<noteq> 0 then prev_of s b
           else if a = next_field (prev_of s b) \<and> prev_of s b \<noteq> 0 then next_of s b
           else word_at s a))"
proof -
  from inv b obtain hw prv nxt where hw: "mem s (HDRP b) = Some hw"
    and p: "mem s (prev_field b) = Some prv" and n: "mem s (next_field b) = Some nxt"
    by (auto simp: fl_inv_def)
  define sl where "sl = list_slot s (find_list (hw AND NOT 15))"
  define m where "m = (if prv = NULL
         then (if nxt \<noteq> NULL
               then (mem s)(prev_field nxt \<mapsto> NULL, sl \<mapsto> nxt)
               else (mem s)(sl \<mapsto> NULL))
         else (if nxt = NULL then (mem s)(next_field prv \<mapsto> NULL)
               else (mem s)(next_field prv \<mapsto> nxt, prev_field nxt \<mapsto> prv)))"
  have r: "remove_free b s = Some (s\<lparr>mem := m\<rparr>)"
    unfolding m_def sl_def by (rule remove_free_cases [OF inv b hw p n])
  from remove_free_inv [OF inv b] r
  have ok: "fl_inv (s\<lparr>mem := m\<rparr>) F" "heap_frame (fl_cells s F) s (s\<lparr>mem := m\<rparr>)"
    by auto
  have v: "prev_of s b = prv" "next_of s b = nxt" "list_slot s (class_of s b) = sl"
    using hw p n by (simp_all add: prev_of_def next_of_def class_of_def word_at_def sl_def)
  have cells: "word_at (s\<lparr>mem := m\<rparr>) a =
          (if a = sl \<and> prv = 0 then nxt
           else if a = prev_field nxt \<and> nxt \<noteq> 0 then prv
           else if a = next_field prv \<and> prv \<noteq> 0 then nxt
           else word_at s a)" for a
    unfolding m_def by (cases "prv = 0"; cases "nxt = 0"; simp add: word_at_def)
  show ?thesis
    unfolding v using r ok cells by blast
qed

lemma fl_inv_shrink:
  assumes inv: "fl_inv s F" and sub: "G \<subseteq> F"
      and d: "dll G (head_of s) (prev_of s) (next_of s) C"
  shows "fl_inv s G"
proof -
  note r = dll_mono_range [OF d]
  have a1: "\<forall>k<8. \<exists>h. mem s (list_slot s k) = Some h \<and> (h = 0 \<or> h \<in> G)"
    using fl_inv_vals(1) [OF inv] r(2) by auto
  have gf: "\<And>c. c \<in> G \<Longrightarrow> c \<in> F"
    using sub by auto
  have a2: "\<forall>b\<in>G. mem s (HDRP b) \<noteq> None
            \<and> (\<exists>p. mem s (prev_field b) = Some p \<and> (p = 0 \<or> p \<in> G))
            \<and> (\<exists>n. mem s (next_field b) = Some n \<and> (n = 0 \<or> n \<in> G))
            \<and> prev_field b \<notin> slots s \<and> next_field b \<notin> slots s \<and> next_field b \<notin> G"
  proof
    fix c assume c: "c \<in> G"
    have f: "mem s (HDRP c) \<noteq> None" "prev_field c \<notin> slots s" "next_field c \<notin> slots s"
      "next_field c \<notin> F"
      using inv gf [OF c] by (auto simp: fl_inv_def)
    have "mem s (prev_field c) = Some (prev_of s c)" "mem s (next_field c) = Some (next_of s c)"
      using fl_inv_vals(2,3) [OF inv gf [OF c]] by simp_all
    then show "mem s (HDRP c) \<noteq> None
            \<and> (\<exists>p. mem s (prev_field c) = Some p \<and> (p = 0 \<or> p \<in> G))
            \<and> (\<exists>n. mem s (next_field c) = Some n \<and> (n = 0 \<or> n \<in> G))
            \<and> prev_field c \<notin> slots s \<and> next_field c \<notin> slots s \<and> next_field c \<notin> G"
      using f r(3) [OF c] r(4) [OF c] sub by auto
  qed
  show ?thesis
    unfolding fl_inv_def using r(1) a1 a2 by simp
qed

lemma fl_cells_sub: "G \<subseteq> F \<Longrightarrow> fl_cells s G \<subseteq> fl_cells s F"
  by (auto simp: fl_cells_def)

lemma remove_free_ok:
  assumes ok: "lists_ok s F" and b: "b \<in> F"
  shows "\<exists>s'. remove_free b s = Some s' \<and> lists_ok s' (F - {b}) \<and> fl_inv s' F
            \<and> heap_frame (fl_cells s F) s s'"
proof -
  have inv: "fl_inv s F" and hs: "\<And>c. c \<in> F \<Longrightarrow> HDRP c \<notin> fl_cells s F"
    and d: "dll F (head_of s) (prev_of s) (next_of s) (class_of s)"
    using ok by (simp_all add: lists_ok_def)
  define p n cl where "p = prev_of s b" and "n = next_of s b" and "cl = class_of s b"
  from remove_free_cells [OF inv b]
  obtain s' where r: "remove_free b s = Some s'" and inv': "fl_inv s' F"
    and fr: "heap_frame (fl_cells s F) s s'"
    and cells: "\<And>a. word_at s' a =
          (if a = list_slot s cl \<and> p = 0 then n
           else if a = prev_field n \<and> n \<noteq> 0 then p
           else if a = next_field p \<and> p \<noteq> 0 then n
           else word_at s a)"
    unfolding p_def n_def cl_def by blast
  have z: "0 \<notin> F"
    using inv by (simp add: fl_inv_def)
  have cl8: "cl < 8"
    by (simp add: cl_def class_of_def find_list_less)
  have pF: "p = 0 \<or> p \<in> F" and nF: "n = 0 \<or> n \<in> F"
    using fl_inv_vals(5,6) [OF inv b] by (simp_all add: p_def n_def)
  have sl: "list_slot s' k = list_slot s k" for k
    by (rule heap_frame_slots [OF fr])
  have e1: "head_of s' k = (if p = 0 then (head_of s)(cl := n) else head_of s) k" if k: "k < 8" for k
  proof -
    have a: "list_slot s k \<noteq> prev_field n \<or> n = 0" "list_slot s k \<noteq> next_field p \<or> p = 0"
      using fl_sep(1,2) [OF inv _ k, of n] fl_sep(1,2) [OF inv _ k, of p] pF nF by auto
    have c: "(list_slot s k = list_slot s cl) = (k = cl)"
      using slot_inj [OF k cl8, of s] by auto
    show ?thesis
      unfolding head_of_def sl cells using a c by (auto simp: head_of_def)
  qed
  have e2: "prev_of s' c = ((prev_of s)(n := p)) c" if c: "c \<in> F" for c
  proof -
    have a: "prev_field c \<noteq> list_slot s cl" "prev_field c \<noteq> next_field p \<or> p = 0"
      using fl_sep(1) [OF inv c cl8] fl_sep(3) [OF inv _ c, of p] pF by auto
    have c0: "c \<noteq> 0"
      using c z by auto
    show ?thesis
      unfolding prev_of_def cells using a c0 by (auto simp: prev_field_inj prev_of_def)
  qed
  have e3: "next_of s' c = ((next_of s)(p := n)) c" if c: "c \<in> F" for c
  proof -
    have a: "next_field c \<noteq> list_slot s cl" "next_field c \<noteq> prev_field n \<or> n = 0"
      using fl_sep(2) [OF inv c cl8] fl_sep(3) [OF inv c, of n] nF by auto
    have c0: "c \<noteq> 0"
      using c z by auto
    show ?thesis
      unfolding next_of_def cells using a c0 by (auto simp: next_field_inj next_of_def)
  qed
  have e4: "class_of s' c = class_of s c" if c: "c \<in> F" for c
    by (rule class_of_frame [OF fr hs [OF c]])
  have d1: "dll (F - {b}) (if p = 0 then (head_of s)(cl := n) else head_of s)
              ((prev_of s)(n := p)) ((next_of s)(p := n)) (class_of s)"
    unfolding p_def n_def cl_def by (rule dll_remove [OF d b])
  have d2: "dll (F - {b}) (head_of s') (prev_of s') (next_of s') (class_of s')"
    by (rule dll_cong [OF d1]) (use e1 e2 e3 e4 in auto)
  have i2: "fl_inv s' (F - {b})"
    by (rule fl_inv_shrink [OF inv' _ d2]) auto
  have h2: "\<forall>c\<in>F - {b}. HDRP c \<notin> fl_cells s' (F - {b})"
    using hs fl_cells_frame [OF fr, of "F - {b}"] fl_cells_sub [of "F - {b}" F s] by auto
  show ?thesis
    using r inv' fr i2 h2 d2 by (auto simp: lists_ok_def)
qed

lemma insert_free_cells:
  assumes inv: "fl_inv s F" and new: "fl_new s F b" and nb: "b \<notin> F"
  shows "\<exists>s'. insert_free sz b s = Some s' \<and> fl_inv s' (insert b F)
     \<and> heap_frame (fl_cells s (insert b F)) s s'
     \<and> (\<forall>a. word_at s' a =
          (if a = list_slot s (find_list sz) then b
           else if a = prev_field b then 0
           else if a = next_field b then head_of s (find_list sz)
           else if a = prev_field (head_of s (find_list sz)) \<and> head_of s (find_list sz) \<noteq> 0 then b
           else word_at s a))"
proof -
  define sl where "sl = list_slot s (find_list sz)"
  define h where "h = head_of s (find_list sz)"
  have hm: "mem s sl = Some h" and hF: "h = 0 \<or> h \<in> F"
    using fl_inv_vals(1,4) [OF inv find_list_less [of sz]] by (simp_all add: sl_def h_def)
  define m where "m = (if h = NULL
         then (mem s)(sl \<mapsto> b, next_field b \<mapsto> NULL, prev_field b \<mapsto> NULL)
         else (mem s)(next_field b \<mapsto> h, prev_field b \<mapsto> NULL, prev_field h \<mapsto> b, sl \<mapsto> b))"
  have r: "insert_free sz b s = Some (s\<lparr>mem := m\<rparr>)"
    unfolding m_def sl_def by (rule insert_free_cases [OF inv _ hm [unfolded sl_def]]) (simp add: new)
  from insert_free_inv [OF inv, of b sz] new r
  have ok: "fl_inv (s\<lparr>mem := m\<rparr>) (insert b F)"
    "heap_frame (fl_cells s (insert b F)) s (s\<lparr>mem := m\<rparr>)"
    by auto
  have sls: "sl \<in> slots s"
    unfolding sl_def by (rule slot_in_slots [OF find_list_less])
  have d: "sl \<noteq> prev_field b" "sl \<noteq> next_field b" "next_field b \<noteq> prev_field b"
    using new sls next_neq_prev [of b] by (auto simp: fl_new_def)
  have dh: "h \<noteq> 0 \<Longrightarrow> prev_field h \<noteq> prev_field b \<and> prev_field h \<noteq> next_field b \<and> prev_field h \<noteq> sl"
    using hF nb new inv sls by (auto simp: fl_new_def fl_inv_def prev_field_def)
  have cells: "word_at (s\<lparr>mem := m\<rparr>) a =
          (if a = sl then b
           else if a = prev_field b then 0
           else if a = next_field b then h
           else if a = prev_field h \<and> h \<noteq> 0 then b
           else word_at s a)" for a
  proof (cases "h = 0")
    case True
    then show ?thesis
      unfolding m_def using d by (simp add: word_at_def)
  next
    case False
    then show ?thesis
      unfolding m_def using d dh [OF False] by (auto simp: word_at_def)
  qed
  show ?thesis
    unfolding sl_def [symmetric] h_def [symmetric] using r ok cells by blast
qed

lemma insert_free_ok:
  assumes ok: "lists_ok s F" and new: "fl_new s F b" and nb: "b \<notin> F"
      and hb: "HDRP b \<notin> fl_cells s (insert b F)"
      and hl: "\<And>c. c \<in> F \<Longrightarrow> HDRP c \<noteq> prev_field b \<and> HDRP c \<noteq> next_field b"
      and cls: "class_of s b = find_list sz"
  shows "\<exists>s'. insert_free sz b s = Some s' \<and> lists_ok s' (insert b F)
            \<and> heap_frame (fl_cells s (insert b F)) s s' \<and> head_of s' (find_list sz) = b"
proof -
  have inv: "fl_inv s F" and hs: "\<And>c. c \<in> F \<Longrightarrow> HDRP c \<notin> fl_cells s F"
    and d: "dll F (head_of s) (prev_of s) (next_of s) (class_of s)"
    using ok by (simp_all add: lists_ok_def)
  define k h where "k = find_list sz" and "h = head_of s (find_list sz)"
  from insert_free_cells [OF inv new nb, of sz]
  obtain s' where r: "insert_free sz b s = Some s'" and inv': "fl_inv s' (insert b F)"
    and fr: "heap_frame (fl_cells s (insert b F)) s s'"
    and cells: "\<And>a. word_at s' a =
          (if a = list_slot s k then b
           else if a = prev_field b then 0
           else if a = next_field b then h
           else if a = prev_field h \<and> h \<noteq> 0 then b
           else word_at s a)"
    unfolding k_def h_def by blast
  have z: "0 \<notin> F"
    using inv by (simp add: fl_inv_def)
  have b0: "b \<noteq> 0" and bs: "prev_field b \<notin> slots s" "next_field b \<notin> slots s"
    and bn: "next_field b \<notin> F" "prev_field b \<notin> next_field ` F"
    using new by (simp_all add: fl_new_def)
  have k8: "k < 8"
    by (simp add: k_def find_list_less)
  have hF: "h = 0 \<or> h \<in> F"
    using fl_inv_vals(4) [OF inv k8] by (simp add: h_def k_def)
  have hb': "h \<noteq> b"
    using hF nb b0 by auto
  have sl: "list_slot s' j = list_slot s j" for j
    by (rule heap_frame_slots [OF fr])
  have e1: "head_of s' j = ((head_of s)(k := b)) j" if j: "j < 8" for j
  proof -
    have a: "list_slot s j \<noteq> prev_field b" "list_slot s j \<noteq> next_field b"
      "list_slot s j \<noteq> prev_field h \<or> h = 0"
      using bs slot_in_slots [OF j, of s] fl_sep(1) [OF inv _ j, of h] hF by auto
    have c: "(list_slot s j = list_slot s k) = (j = k)"
      using slot_inj [OF j k8, of s] by auto
    show ?thesis
      unfolding head_of_def sl cells using a c by (auto simp: head_of_def)
  qed
  have e2: "prev_of s' c = (((prev_of s)(h := b))(b := 0)) c" if c: "c \<in> insert b F" for c
  proof (cases "c = b")
    case True
    have "prev_field b \<noteq> list_slot s k"
      using bs slot_in_slots [OF k8, of s] by auto
    then show ?thesis
      unfolding prev_of_def cells using True by simp
  next
    case False
    then have cf: "c \<in> F"
      using c by simp
    have a: "prev_field c \<noteq> list_slot s k" "prev_field c \<noteq> prev_field b"
      "prev_field c \<noteq> next_field b"
      using fl_sep(1) [OF inv cf k8] False bn(1) cf by (auto simp: prev_field_def)
    have c0: "c \<noteq> 0"
      using cf z by auto
    show ?thesis
      unfolding prev_of_def cells using a c0 False by (auto simp: prev_field_inj prev_of_def)
  qed
  have e3: "next_of s' c = ((next_of s)(b := h)) c" if c: "c \<in> insert b F" for c
  proof (cases "c = b")
    case True
    have "next_field b \<noteq> list_slot s k" "next_field b \<noteq> prev_field b"
      using bs slot_in_slots [OF k8, of s] next_neq_prev [of b] by auto
    then show ?thesis
      unfolding next_of_def cells using True by simp
  next
    case False
    then have cf: "c \<in> F"
      using c by simp
    have im: "next_field c \<in> next_field ` F"
      using cf by (rule imageI)
    have a: "next_field c \<noteq> list_slot s k" "next_field c \<noteq> prev_field b"
      "next_field c \<noteq> next_field b" "next_field c \<noteq> prev_field h \<or> h = 0"
      using fl_sep(2) [OF inv cf k8] False bn(2) im fl_sep(3) [OF inv cf, of h] hF
      by (auto simp: next_field_inj)
    show ?thesis
      unfolding next_of_def cells using a False by (auto simp: next_of_def)
  qed
  have e4: "class_of s' c = ((class_of s)(b := k)) c" if c: "c \<in> insert b F" for c
  proof (cases "c = b")
    case True
    then show ?thesis
      using class_of_frame [OF fr hb] cls by (simp add: k_def)
  next
    case False
    then have cf: "c \<in> F"
      using c by simp
    have "HDRP c \<notin> fl_cells s (insert b F)"
      unfolding fl_cells_insert using hs [OF cf] hl [OF cf] by simp
    then show ?thesis
      using class_of_frame [OF fr] False by simp
  qed
  have d1: "dll (insert b F) ((head_of s)(k := b)) (((prev_of s)(h := b))(b := 0))
              ((next_of s)(b := h)) ((class_of s)(b := k))"
    unfolding h_def k_def [symmetric] by (rule dll_insert [OF d nb b0 k8])
  have d2: "dll (insert b F) (head_of s') (prev_of s') (next_of s') (class_of s')"
    by (rule dll_cong [OF d1]) (use e1 e2 e3 e4 in auto)
  have h2: "\<forall>c\<in>insert b F. HDRP c \<notin> fl_cells s' (insert b F)"
    unfolding fl_cells_frame [OF fr] fl_cells_insert using hb hs hl
    by (auto simp: fl_cells_insert)
  have hd: "head_of s' k = b"
    using e1 [OF k8] by simp
  show ?thesis
    using r inv' fr h2 d2 hd by (auto simp: lists_ok_def k_def)
qed

lemma lists_ok_frame:
  assumes ok: "lists_ok s F" and fr: "heap_frame C s s'"
      and dj: "C \<inter> fl_cells s F = {}" and dh: "C \<inter> HDRP ` F = {}"
  shows "lists_ok s' F"
proof -
  have inv: "fl_inv s F" and hs: "\<And>c. c \<in> F \<Longrightarrow> HDRP c \<notin> fl_cells s F"
    and d: "dll F (head_of s) (prev_of s) (next_of s) (class_of s)"
    using ok by (simp_all add: lists_ok_def)
  have inv': "fl_inv s' F"
    by (rule fl_inv_frame [OF inv fr dj])
  have e1: "head_of s' k = head_of s k" if "k < 8" for k
    by (rule head_of_frame [OF fr]) (use dj slot_in_slots [OF that, of s] in \<open>auto simp: fl_cells_def\<close>)
  have e2: "prev_of s' c = prev_of s c" "next_of s' c = next_of s c" "class_of s' c = class_of s c"
    if "c \<in> F" for c
    using prev_of_frame [OF fr, of c] next_of_frame [OF fr, of c] class_of_frame [OF fr, of c]
      dj dh that by (auto simp: fl_cells_def)
  have d': "dll F (head_of s') (prev_of s') (next_of s') (class_of s')"
    by (rule dll_cong [OF d]) (use e1 e2 in auto)
  show ?thesis
    using inv' hs d' fl_cells_frame [OF fr, of F] by (auto simp: lists_ok_def)
qed

lemma fl_new_mono: "fl_new s F b \<Longrightarrow> G \<subseteq> F \<Longrightarrow> fl_new s G b"
  by (auto simp: fl_new_def)

lemma fl_new_member:
  assumes inv: "fl_inv s F" and b: "b \<in> F"
  shows "fl_new s (F - {b}) b"
proof -
  have "b \<noteq> 0" "mem s (HDRP b) \<noteq> None" "mem s (prev_field b) \<noteq> None"
    "mem s (next_field b) \<noteq> None" "prev_field b \<notin> slots s" "next_field b \<notin> slots s"
    "next_field b \<notin> F"
    using inv b by (auto simp: fl_inv_def)
  moreover have "prev_field b \<notin> next_field ` F"
    using inv b by (auto simp: fl_inv_def prev_field_def)
  ultimately show ?thesis
    by (auto simp: fl_new_def)
qed

lemma free_tags_frame:
  assumes "free_tags s b n" and "heap_frame C s s'" and "HDRP b \<notin> C" and "b + n - DSIZE \<notin> C"
  shows "free_tags s' b n"
  using assms GET_SIZE_frame [of C s s'] GET_ALLOC_frame [of C s s'] FTRP_frame [of C s s' b]
  by (simp add: free_tags_def)

lemma coalesce_case1:
  assumes ok: "lists_ok s F" and new: "fl_new s F bp" and nbp: "bp \<notin> F"
      and ft: "free_tags s bp sz"
      and pb: "PREV_BLKP s bp = Some pb" and pa: "GET_ALLOC s (HDRP pb) = Some pa"
      and nb: "NEXT_BLKP s bp = Some nb" and na: "GET_ALLOC s (HDRP nb) = Some na"
      and sep: "tags s bp \<inter> fl_cells s (insert bp F) = {}"
      and hl: "\<forall>c\<in>F. HDRP c \<notin> {prev_field bp, next_field bp}"
      and c: "pa \<noteq> 0" "na \<noteq> 0"
  shows "\<exists>s'. insert_free sz bp s = Some s' \<and> coalesce bp s = Some (bp, s')
            \<and> free_tags s' bp sz \<and> lists_ok s' (insert bp F)
            \<and> head_of s' (find_list sz) = bp
            \<and> heap_frame (fl_cells s (insert bp F) \<union> tags s bp \<union> tags s pb \<union> tags s nb) s s'"
proof -
  have gs: "GET_SIZE s (HDRP bp) = Some sz" and gf: "FTRP s bp = Some (bp + sz - DSIZE)"
    using ft by (simp_all add: free_tags_def)
  have T: "HDRP bp \<notin> fl_cells s (insert bp F)" "bp + sz - DSIZE \<notin> fl_cells s (insert bp F)"
    using sep gf by (auto simp: tags_def)
  have hl': "\<And>c. c \<in> F \<Longrightarrow> HDRP c \<noteq> prev_field bp \<and> HDRP c \<noteq> next_field bp"
    using hl by auto
  from insert_free_ok [OF ok new nbp T(1) hl' class_of_size [OF gs]]
  obtain s' where i: "insert_free sz bp s = Some s'" "lists_ok s' (insert bp F)"
      "heap_frame (fl_cells s (insert bp F)) s s'" "head_of s' (find_list sz) = bp"
    by blast
  have "coalesce bp s = Some (bp, s')"
    using gs pb pa nb na c i(1) by (simp add: coalesce_def)
  moreover have "free_tags s' bp sz"
    by (rule free_tags_frame [OF ft i(3) T])
  moreover have "heap_frame (fl_cells s (insert bp F) \<union> tags s bp \<union> tags s pb \<union> tags s nb) s s'"
    by (rule heap_frame_mono [OF i(3)]) auto
  ultimately show ?thesis
    using i by blast
qed

lemma coalesce_case2:
  assumes ok: "lists_ok s F" and new: "fl_new s F bp" and nbp: "bp \<notin> F"
      and ft: "free_tags s bp sz"
      and pb: "PREV_BLKP s bp = Some pb" and pa: "GET_ALLOC s (HDRP pb) = Some pa"
      and nb: "NEXT_BLKP s bp = Some nb" and na: "GET_ALLOC s (HDRP nb) = Some na"
      and sep: "(tags s bp \<union> tags s nb) \<inter> fl_cells s (insert bp F) = {}"
      and hl: "\<forall>c\<in>F. HDRP c \<notin> set_option (FTRP s nb) \<union> {prev_field bp, next_field bp}"
      and c: "pa \<noteq> 0" "na = 0" "nb \<in> F" "free_tags s nb nsz"
  shows "\<exists>s1 s'. remove_free nb s = Some s1
            \<and> insert_free (sz + nsz) bp (merged bp (sz + nsz) s1) = Some s'
            \<and> coalesce bp s = Some (bp, s') \<and> free_tags s' bp (sz + nsz)
            \<and> lists_ok s' (insert bp (F - {nb}))
            \<and> head_of s' (find_list (sz + nsz)) = bp
            \<and> heap_frame (fl_cells s (insert bp F) \<union> tags s bp \<union> tags s pb \<union> tags s nb) s s'"
proof -
  define G where "G = fl_cells s (insert bp F)"
  define F1 where "F1 = F - {nb}"
  define hdr where "hdr = HDRP bp"
  define ftr where "ftr = bp + (sz + nsz) - DSIZE"
  define v where "v = PACK (sz + nsz) 0"
  have inv: "fl_inv s F"
    using ok by (simp add: lists_ok_def)
  have gs: "GET_SIZE s (HDRP bp) = Some sz"
    using ft by (simp add: free_tags_def)
  have gn: "GET_SIZE s (HDRP nb) = Some nsz" "FTRP s nb = Some (nb + nsz - DSIZE)"
    and fn: "mem s (nb + nsz - DSIZE) \<noteq> None"
    using c(4) GET_SIZE_mapped [of s "nb + nsz - DSIZE" nsz] by (simp_all add: free_tags_def)
  have tm: "(sz + nsz) AND 15 = 0"
    using gs gn(1) by (blast intro: add_mult16 GET_SIZE_mult16)
  have nbe: "nb = bp + sz"
    using nb NEXT_BLKP_eq [OF gs] by simp
  have fe: "nb + nsz - DSIZE = ftr"
    by (simp add: nbe ftr_def algebra_simps)
  have T: "hdr \<notin> G" "ftr \<notin> G" "HDRP nb \<notin> G"
    using sep gn(2) fe by (auto simp: tags_def G_def hdr_def)
  have sub: "fl_cells s F \<subseteq> G" "fl_cells s (insert bp F1) \<subseteq> G" "fl_cells s F1 \<subseteq> G"
    unfolding G_def F1_def by (auto simp: fl_cells_def)
  have hf: "hdr \<noteq> ftr"
    unfolding hdr_def ftr_def by (rule hdr_neq_ftr [OF tm])
  have hh: "hdr \<notin> HDRP ` F" "ftr \<notin> HDRP ` F"
    and hl': "\<And>c. c \<in> F1 \<Longrightarrow> HDRP c \<noteq> prev_field bp \<and> HDRP c \<noteq> next_field bp"
    using hl nbp gn(2) fe by (auto simp: hdr_def HDRP_inj F1_def)
  from remove_free_ok [OF ok c(3)]
  obtain s1 where r: "remove_free nb s = Some s1" "lists_ok s1 F1" "fl_inv s1 F"
      "heap_frame (fl_cells s F) s s1"
    unfolding F1_def by blast
  have out: "hdr \<notin> fl_cells s F" "ftr \<notin> fl_cells s F" "HDRP nb \<notin> fl_cells s F"
    using T sub by auto
  have e7: "NEXT_BLKP s1 bp = Some nb"
    using NEXT_BLKP_frame [OF r(4), of bp] out(1) nb by (simp add: hdr_def)
  have e8: "GET_SIZE s1 (HDRP nb) = Some nsz"
    using GET_SIZE_frame [OF r(4) out(3)] gn(1) by simp
  have m1: "mem s1 hdr \<noteq> None" "mem s1 ftr \<noteq> None"
    using frame_dom [OF r(4)] GET_SIZE_mapped [OF gs] fn fe by (simp_all add: hdr_def)
  define s2 where "s2 = s1\<lparr>mem := (mem s1)(hdr \<mapsto> v)\<rparr>"
  define s3 where "s3 = s2\<lparr>mem := (mem s2)(ftr \<mapsto> v)\<rparr>"
  have e9: "PUT hdr v s1 = Some s2"
    unfolding s2_def by (rule PUT_mapped [OF m1(1)])
  have m2: "mem s2 ftr \<noteq> None"
    using m1(2) by (simp add: s2_def)
  have e11: "PUT ftr v s2 = Some s3"
    unfolding s3_def by (rule PUT_mapped [OF m2])
  have h2: "GET_SIZE s2 (HDRP bp) = Some (sz + nsz)"
    by (rule tag_written [OF tm]) (simp add: s2_def hdr_def v_def)
  have h3: "GET_SIZE s3 (HDRP bp) = Some (sz + nsz)"
    by (rule tag_written [OF tm]) (use hf in \<open>simp add: s3_def s2_def hdr_def v_def\<close>)
  have e10: "FTRP s2 bp = Some ftr"
    unfolding ftr_def by (rule FTRP_eq [OF h2])
  have s3m: "s3 = merged bp (sz + nsz) s1"
    by (simp add: s3_def s2_def merged_def hdr_def ftr_def v_def)
  have f13: "heap_frame {hdr, ftr} s1 s3"
    using m1 by (auto simp: heap_frame_def s3_def s2_def)
  have f03: "heap_frame (fl_cells s F \<union> {hdr, ftr}) s s3"
    by (rule heap_frame_trans [OF r(4) f13])
  have c1: "fl_cells s1 F1 = fl_cells s F1" "fl_cells s3 (insert bp F1) = fl_cells s (insert bp F1)"
    using fl_cells_frame [OF r(4)] fl_cells_frame [OF f03] by simp_all
  have ok3: "lists_ok s3 F1"
    by (rule lists_ok_frame [OF r(2) f13]) (use out sub c1 T hh in \<open>auto simp: F1_def\<close>)
  have new3: "fl_new s3 F1 bp"
    by (rule fl_new_mono [OF fl_new_frame [OF new f03]]) (simp add: F1_def)
  have hb3: "HDRP bp \<notin> fl_cells s3 (insert bp F1)"
    unfolding c1 using T(1) sub(2) by (auto simp: hdr_def)
  have nb3: "bp \<notin> F1"
    using nbp by (simp add: F1_def)
  from insert_free_ok [OF ok3 new3 nb3 hb3 hl' class_of_size [OF h3]]
  obtain s4 where i: "insert_free (sz + nsz) bp s3 = Some s4" "lists_ok s4 (insert bp F1)"
      "heap_frame (fl_cells s (insert bp F1)) s3 s4" "head_of s4 (find_list (sz + nsz)) = bp"
    unfolding c1 by blast
  have run: "coalesce bp s = Some (bp, s4)"
    using gs pb pa nb na c(1,2) r(1) e7 e8 e9 e10 e11 i(1)
    by (simp add: coalesce_def hdr_def v_def)
  have TG: "hdr \<notin> fl_cells s (insert bp F1)" "ftr \<notin> fl_cells s (insert bp F1)"
    using T sub(2) by auto
  have w: "mem s4 hdr = Some v" "mem s4 ftr = Some v"
    using frame_mem [OF i(3) TG(1)] frame_mem [OF i(3) TG(2)] hf by (simp_all add: s3_def s2_def)
  have fin: "free_tags s4 bp (sz + nsz)"
    by (rule free_tags_written [OF tm]) (use w in \<open>simp_all add: hdr_def ftr_def v_def\<close>)
  have inW: "hdr \<in> tags s bp" "ftr \<in> tags s nb"
    using gn(2) fe by (simp_all add: tags_def hdr_def)
  have fr: "heap_frame (fl_cells s (insert bp F) \<union> tags s bp \<union> tags s pb \<union> tags s nb) s s4"
    by (rule heap_frame_mono [OF heap_frame_trans [OF f03 i(3)]])
      (use inW in \<open>auto simp: fl_cells_def F1_def\<close>)
  show ?thesis
    using r(1) i(1,2,4) run fin fr unfolding s3m F1_def by blast
qed

lemma prev_ftr_neq_hdr: "(n :: 64 word) AND 15 = 0 \<Longrightarrow> (b + n) - DSIZE \<noteq> HDRP b"
  using hdr_neq_ftr [of n b] by simp

lemma coalesce_case3:
  assumes ok: "lists_ok s F" and nbp: "bp \<notin> F"
      and ft: "free_tags s bp sz"
      and pb: "PREV_BLKP s bp = Some pb" and pa: "GET_ALLOC s (HDRP pb) = Some pa"
      and nb: "NEXT_BLKP s bp = Some nb" and na: "GET_ALLOC s (HDRP nb) = Some na"
      and sep: "(tags s bp \<union> tags s pb) \<inter> fl_cells s F = {}"
      and hl: "\<forall>c\<in>F. HDRP c \<notin> set_option (FTRP s bp)"
      and c: "pa = 0" "na \<noteq> 0" "pb \<in> F" "free_tags s pb psz" "NEXT_BLKP s pb = Some bp"
      and nz: "sz \<noteq> 0"
  shows "\<exists>s1 s'. remove_free pb s = Some s1
            \<and> insert_free (sz + psz) pb (merged pb (sz + psz) s1) = Some s'
            \<and> coalesce bp s = Some (pb, s') \<and> free_tags s' pb (sz + psz)
            \<and> lists_ok s' F \<and> head_of s' (find_list (sz + psz)) = pb
            \<and> heap_frame (fl_cells s (insert bp F) \<union> tags s bp \<union> tags s pb \<union> tags s nb) s s'"
proof -
  define G where "G = fl_cells s F"
  define F1 where "F1 = F - {pb}"
  define hdr where "hdr = HDRP pb"
  define ftr where "ftr = bp + sz - DSIZE"
  define pft where "pft = bp - DSIZE"
  define v where "v = PACK (sz + psz) 0"
  have inv: "fl_inv s F" and hs: "\<And>c. c \<in> F \<Longrightarrow> HDRP c \<notin> fl_cells s F"
    using ok by (simp_all add: lists_ok_def)
  have F1: "insert pb F1 = F" "pb \<notin> F1" "F1 \<subseteq> F"
    using c(3) by (auto simp: F1_def)
  have gs: "GET_SIZE s (HDRP bp) = Some sz" "FTRP s bp = Some ftr" and fm: "mem s ftr \<noteq> None"
    using ft GET_SIZE_mapped [of s "bp + sz - DSIZE" sz] by (simp_all add: free_tags_def ftr_def)
  have gp: "GET_SIZE s (HDRP pb) = Some psz" "FTRP s pb = Some (pb + psz - DSIZE)"
    using c(4) by (simp_all add: free_tags_def)
  have tm: "(sz + psz) AND 15 = 0" and pm: "psz AND 15 = 0"
    using gs(1) gp(1) by (blast intro: add_mult16 GET_SIZE_mult16)+
  have bpe: "bp = pb + psz"
    using c(5) NEXT_BLKP_eq [OF gp(1)] by simp
  have pfe: "pb + psz - DSIZE = pft"
    by (simp add: bpe pft_def)
  have fe: "pb + (sz + psz) - DSIZE = ftr"
    by (simp add: bpe ftr_def algebra_simps)
  have T: "hdr \<notin> G" "ftr \<notin> G" "HDRP bp \<notin> G" "pft \<notin> G"
    using sep gs(2) gp(2) pfe by (auto simp: tags_def G_def hdr_def)
  have hf: "hdr \<noteq> ftr"
    unfolding hdr_def fe [symmetric] by (rule hdr_neq_ftr [OF tm])
  have d1: "pft \<noteq> ftr"
    using nz by (simp add: pft_def ftr_def)
  have d2: "pft \<noteq> hdr"
    unfolding pfe [symmetric] hdr_def by (rule prev_ftr_neq_hdr [OF pm])
  have hh: "hdr \<notin> HDRP ` F1" "ftr \<notin> HDRP ` F1"
    using hl gs(2) by (auto simp: hdr_def HDRP_inj F1_def)
  have hl': "\<And>c. c \<in> F1 \<Longrightarrow> HDRP c \<noteq> prev_field pb \<and> HDRP c \<noteq> next_field pb"
    using hs c(3) by (auto simp: F1_def fl_cells_def)
  from remove_free_ok [OF ok c(3)]
  obtain s1 where r: "remove_free pb s = Some s1" "lists_ok s1 F1" "fl_inv s1 F"
      "heap_frame G s s1"
    unfolding F1_def G_def by blast
  have e1: "PREV_BLKP s1 bp = Some pb"
    using PREV_BLKP_frame [OF r(4), of bp] T(4) pb by (simp add: pft_def)
  have e2: "GET_SIZE s1 (HDRP pb) = Some psz"
    using GET_SIZE_frame [OF r(4) T(1)] gp(1) by (simp add: hdr_def)
  have e3: "FTRP s1 bp = Some ftr"
    using FTRP_frame [OF r(4) T(3)] gs(2) by simp
  have m1: "mem s1 hdr \<noteq> None" "mem s1 ftr \<noteq> None"
    using frame_dom [OF r(4)] GET_SIZE_mapped [OF gp(1)] fm by (simp_all add: hdr_def)
  define s2 where "s2 = s1\<lparr>mem := (mem s1)(ftr \<mapsto> v)\<rparr>"
  define s3 where "s3 = s2\<lparr>mem := (mem s2)(hdr \<mapsto> v)\<rparr>"
  have e4: "PUT ftr v s1 = Some s2"
    unfolding s2_def by (rule PUT_mapped [OF m1(2)])
  have m2: "mem s2 hdr \<noteq> None"
    using m1(1) by (simp add: s2_def)
  have e6: "PUT hdr v s2 = Some s3"
    unfolding s3_def by (rule PUT_mapped [OF m2])
  have f12: "heap_frame {ftr} s1 s2"
    using m1 by (auto simp: heap_frame_def s2_def)
  have f13: "heap_frame {hdr, ftr} s1 s3"
    using m1 by (auto simp: heap_frame_def s3_def s2_def)
  have f03: "heap_frame (G \<union> {hdr, ftr}) s s3"
    by (rule heap_frame_trans [OF r(4) f13])
  have e5: "PREV_BLKP s2 bp = Some pb"
    using PREV_BLKP_frame [OF f12, of bp] d1 e1 by (simp add: pft_def)
  have e7: "PREV_BLKP s3 bp = Some pb"
    using PREV_BLKP_frame [OF f13, of bp] d1 d2 e1 by (simp add: pft_def)
  have h3: "GET_SIZE s3 (HDRP pb) = Some (sz + psz)"
    by (rule tag_written [OF tm]) (simp add: s3_def hdr_def v_def)
  have s3m: "s3 = merged pb (sz + psz) s1"
    using hf unfolding merged_def fe by (auto simp: s3_def s2_def hdr_def v_def fun_eq_iff)
  have c1: "fl_cells s1 F = G" "fl_cells s3 F = G" "fl_cells s1 F1 \<subseteq> G"
    using fl_cells_frame [OF r(4)] fl_cells_frame [OF f03] fl_cells_sub [OF F1(3), of s]
    by (simp_all add: G_def)
  have ok3: "lists_ok s3 F1"
    by (rule lists_ok_frame [OF r(2) f13]) (use T c1 hh in auto)
  have inv3: "fl_inv s3 F"
    by (rule fl_inv_frame [OF r(3) f13]) (use T c1 in auto)
  have new3: "fl_new s3 F1 pb"
    unfolding F1_def by (rule fl_new_member [OF inv3 c(3)])
  have hb3: "HDRP pb \<notin> fl_cells s3 (insert pb F1)"
    unfolding F1(1) c1 using T(1) by (simp add: hdr_def)
  from insert_free_ok [OF ok3 new3 F1(2) hb3 hl' class_of_size [OF h3]]
  obtain s4 where i: "insert_free (sz + psz) pb s3 = Some s4" "lists_ok s4 F"
      "heap_frame G s3 s4" "head_of s4 (find_list (sz + psz)) = pb"
    unfolding F1(1) c1 by blast
  have run: "coalesce bp s = Some (pb, s4)"
    using gs(1) pb pa nb na c(1,2) r(1) e1 e2 e3 e4 e5 e6 e7 i(1)
    by (simp add: coalesce_def hdr_def v_def)
  have w: "mem s4 hdr = Some v" "mem s4 ftr = Some v"
    using frame_mem [OF i(3) T(1)] frame_mem [OF i(3) T(2)] hf by (simp_all add: s3_def s2_def)
  have fin: "free_tags s4 pb (sz + psz)"
    by (rule free_tags_written [OF tm]) (use w fe in \<open>simp_all add: hdr_def v_def\<close>)
  have inW: "hdr \<in> tags s pb" "ftr \<in> tags s bp"
    using gs(2) by (simp_all add: tags_def hdr_def)
  have fr: "heap_frame (fl_cells s (insert bp F) \<union> tags s bp \<union> tags s pb \<union> tags s nb) s s4"
    by (rule heap_frame_mono [OF heap_frame_trans [OF f03 i(3)]])
      (use inW in \<open>auto simp: fl_cells_def G_def\<close>)
  show ?thesis
    using r(1) i(1,2,4) run fin fr unfolding s3m by blast
qed

lemma coalesce_case4:
  assumes ok: "lists_ok s F" and nbp: "bp \<notin> F"
      and ft: "free_tags s bp sz"
      and pb: "PREV_BLKP s bp = Some pb" and pa: "GET_ALLOC s (HDRP pb) = Some pa"
      and nb: "NEXT_BLKP s bp = Some nb" and na: "GET_ALLOC s (HDRP nb) = Some na"
      and sep: "(tags s bp \<union> tags s pb \<union> tags s nb) \<inter> fl_cells s F = {}"
      and hl: "\<forall>c\<in>F. HDRP c \<notin> set_option (FTRP s nb)"
      and c: "pa = 0" "na = 0" "pb \<in> F" "nb \<in> F" "free_tags s pb psz"
             "NEXT_BLKP s pb = Some bp" "free_tags s nb nsz"
      and nz: "psz \<noteq> 0" "pb \<noteq> nb" "sz + nsz \<noteq> 0"
  shows "\<exists>s1 s2 s'. remove_free nb s = Some s1 \<and> remove_free pb s1 = Some s2
            \<and> insert_free (sz + (psz + nsz)) pb (merged pb (sz + (psz + nsz)) s2) = Some s'
            \<and> coalesce bp s = Some (pb, s') \<and> free_tags s' pb (sz + (psz + nsz))
            \<and> lists_ok s' (F - {nb}) \<and> head_of s' (find_list (sz + (psz + nsz))) = pb
            \<and> heap_frame (fl_cells s (insert bp F) \<union> tags s bp \<union> tags s pb \<union> tags s nb) s s'"
proof -
  define G where "G = fl_cells s F"
  define F1 where "F1 = F - {nb}"
  define F2 where "F2 = F1 - {pb}"
  define t where "t = sz + (psz + nsz)"
  define hdr where "hdr = HDRP pb"
  define ftr where "ftr = nb + nsz - DSIZE"
  define pft where "pft = bp - DSIZE"
  define v where "v = PACK t 0"
  have inv: "fl_inv s F" and hs: "\<And>c. c \<in> F \<Longrightarrow> HDRP c \<notin> fl_cells s F"
    using ok by (simp_all add: lists_ok_def)
  have F1: "pb \<in> F1" "F1 \<subseteq> F"
    and F2: "insert pb F2 = F1" "pb \<notin> F2" "F2 \<subseteq> F"
    using c(3) nz(2) by (auto simp: F1_def F2_def)
  have gs: "GET_SIZE s (HDRP bp) = Some sz"
    using ft by (simp_all add: free_tags_def)
  have gp: "GET_SIZE s (HDRP pb) = Some psz" "FTRP s pb = Some (pb + psz - DSIZE)"
    using c(5) by (simp_all add: free_tags_def)
  have gn: "GET_SIZE s (HDRP nb) = Some nsz" "FTRP s nb = Some ftr" "GET_SIZE s ftr = Some nsz"
    using c(7) by (simp_all add: free_tags_def ftr_def)
  have fm: "mem s ftr \<noteq> None"
    by (rule GET_SIZE_mapped [OF gn(3)])
  have pm: "psz AND 15 = 0" and tm: "t AND 15 = 0"
    unfolding t_def using gs gp(1) gn(1) by (blast intro: add_mult16 GET_SIZE_mult16)+
  have bpe: "bp = pb + psz"
    using c(6) NEXT_BLKP_eq [OF gp(1)] by simp
  have nbe: "nb = bp + sz"
    using nb NEXT_BLKP_eq [OF gs] by simp
  have pfe: "pb + psz - DSIZE = pft"
    by (simp add: bpe pft_def)
  have fe: "pb + t - DSIZE = ftr"
    by (simp add: nbe bpe ftr_def t_def algebra_simps)
  have T: "hdr \<notin> G" "ftr \<notin> G" "HDRP bp \<notin> G" "pft \<notin> G" "HDRP nb \<notin> G"
    using sep gn(2) gp(2) pfe by (auto simp: tags_def G_def hdr_def)
  have hf: "hdr \<noteq> ftr"
    unfolding hdr_def fe [symmetric] by (rule hdr_neq_ftr [OF tm])
  have d1: "pft \<noteq> ftr"
    using nz(3) by (simp add: pft_def ftr_def nbe algebra_simps)
  have d2: "pft \<noteq> hdr"
    unfolding pfe [symmetric] hdr_def by (rule prev_ftr_neq_hdr [OF pm])
  have d3: "HDRP bp \<noteq> hdr" "HDRP nb \<noteq> hdr"
    using nz(1,2) by (simp_all add: hdr_def HDRP_def bpe)
  have hh: "hdr \<notin> HDRP ` F2" "ftr \<notin> HDRP ` F2"
    using hl gn(2) by (auto simp: hdr_def HDRP_inj F2_def F1_def)
  have hl': "\<And>c. c \<in> F2 \<Longrightarrow> HDRP c \<noteq> prev_field pb \<and> HDRP c \<noteq> next_field pb"
    using hs c(3) by (auto simp: F2_def F1_def fl_cells_def)
  from remove_free_ok [OF ok c(4)]
  obtain s1 where r1: "remove_free nb s = Some s1" "lists_ok s1 F1" "fl_inv s1 F"
      "heap_frame G s s1"
    unfolding F1_def G_def by blast
  have c1: "fl_cells s1 F1 \<subseteq> G"
    using fl_cells_frame [OF r1(4), of F1] fl_cells_sub [OF F1(2), of s] by (simp add: G_def)
  from remove_free_ok [OF r1(2) F1(1)]
  obtain s2 where r2: "remove_free pb s1 = Some s2" "lists_ok s2 F2" "fl_inv s2 F1"
      "heap_frame (fl_cells s1 F1) s1 s2"
    unfolding F2_def by blast
  have f12: "heap_frame G s1 s2"
    by (rule heap_frame_mono [OF r2(4) c1])
  have f02: "heap_frame G s s2"
    using heap_frame_trans [OF r1(4) f12] by simp
  have e0: "PREV_BLKP s1 bp = Some pb"
    using PREV_BLKP_frame [OF r1(4), of bp] T(4) pb by (simp add: pft_def)
  have e1: "PREV_BLKP s2 bp = Some pb"
    using PREV_BLKP_frame [OF f02, of bp] T(4) pb by (simp add: pft_def)
  have e2: "GET_SIZE s2 (HDRP pb) = Some psz"
    using GET_SIZE_frame [OF f02 T(1)] gp(1) by (simp add: hdr_def)
  have e3: "NEXT_BLKP s2 bp = Some nb"
    using NEXT_BLKP_frame [OF f02 T(3)] nb by simp
  have e4: "FTRP s2 nb = Some ftr"
    using FTRP_frame [OF f02 T(5)] gn(2) by simp
  have e5: "GET_SIZE s2 ftr = Some nsz"
    using GET_SIZE_frame [OF f02 T(2)] gn(3) by simp
  have m2: "mem s2 hdr \<noteq> None" "mem s2 ftr \<noteq> None"
    using frame_dom [OF f02] GET_SIZE_mapped [OF gp(1)] fm by (simp_all add: hdr_def)
  define s3 where "s3 = s2\<lparr>mem := (mem s2)(hdr \<mapsto> v)\<rparr>"
  define s4 where "s4 = s3\<lparr>mem := (mem s3)(ftr \<mapsto> v)\<rparr>"
  have e6: "PUT hdr v s2 = Some s3"
    unfolding s3_def by (rule PUT_mapped [OF m2(1)])
  have m3: "mem s3 ftr \<noteq> None"
    using m2(2) by (simp add: s3_def)
  have e9: "PUT ftr v s3 = Some s4"
    unfolding s4_def by (rule PUT_mapped [OF m3])
  have f23: "heap_frame {hdr} s2 s3"
    using m2 by (auto simp: heap_frame_def s3_def)
  have f24: "heap_frame {hdr, ftr} s2 s4"
    using m2 by (auto simp: heap_frame_def s4_def s3_def)
  have f04: "heap_frame (G \<union> {hdr, ftr}) s s4"
    by (rule heap_frame_trans [OF f02 f24])
  have e7: "NEXT_BLKP s3 bp = Some nb"
    using NEXT_BLKP_frame [OF f23, of bp] d3(1) e3 by simp
  have e8: "FTRP s3 nb = Some ftr"
    using FTRP_frame [OF f23, of nb] d3(2) e4 by simp
  have e10: "PREV_BLKP s4 bp = Some pb"
    using PREV_BLKP_frame [OF f24, of bp] d1 d2 e1 by (simp add: pft_def)
  have h4: "GET_SIZE s4 (HDRP pb) = Some t"
    by (rule tag_written [OF tm]) (use hf in \<open>simp add: s4_def s3_def hdr_def v_def\<close>)
  have s4m: "s4 = merged pb t s2"
    unfolding merged_def fe by (simp add: s4_def s3_def hdr_def v_def)
  have c2: "fl_cells s2 F2 \<subseteq> G" "fl_cells s2 F1 \<subseteq> G" "fl_cells s4 F1 \<subseteq> G"
    "fl_cells s4 F1 = fl_cells s F1"
    using fl_cells_frame [OF f02] fl_cells_frame [OF f04] fl_cells_sub [OF F1(2), of s]
      fl_cells_sub [OF F2(3), of s] by (simp_all add: G_def)
  have ok4: "lists_ok s4 F2"
    by (rule lists_ok_frame [OF r2(2) f24]) (use T c2 hh in auto)
  have inv4: "fl_inv s4 F1"
    by (rule fl_inv_frame [OF r2(3) f24]) (use T c2 in auto)
  have new4: "fl_new s4 F2 pb"
    unfolding F2_def by (rule fl_new_member [OF inv4 F1(1)])
  have hb4: "HDRP pb \<notin> fl_cells s4 (insert pb F2)"
    unfolding F2(1) using c2(3) T(1) by (auto simp: hdr_def)
  from insert_free_ok [OF ok4 new4 F2(2) hb4 hl' class_of_size [OF h4]]
  obtain s5 where i: "insert_free t pb s4 = Some s5" "lists_ok s5 F1"
      "heap_frame (fl_cells s F1) s4 s5" "head_of s5 (find_list t) = pb"
    unfolding F2(1) c2(4) by blast
  have run: "coalesce bp s = Some (pb, s5)"
    using gs pb pa nb na c(1,2) r1(1) e0 r2(1) e1 e2 e3 e4 e5 e6 e7 e8 e9 e10 i(1)
    by (simp add: coalesce_def hdr_def v_def t_def)
  have TG: "hdr \<notin> fl_cells s F1" "ftr \<notin> fl_cells s F1"
    using T fl_cells_sub [OF F1(2), of s] by (auto simp: G_def)
  have w: "mem s5 hdr = Some v" "mem s5 ftr = Some v"
    using frame_mem [OF i(3) TG(1)] frame_mem [OF i(3) TG(2)] hf by (simp_all add: s4_def s3_def)
  have fin: "free_tags s5 pb t"
    by (rule free_tags_written [OF tm]) (use w fe in \<open>simp_all add: hdr_def v_def\<close>)
  have inW: "hdr \<in> tags s pb" "ftr \<in> tags s nb"
    using gn(2) by (simp_all add: tags_def hdr_def)
  have fr: "heap_frame (fl_cells s (insert bp F) \<union> tags s bp \<union> tags s pb \<union> tags s nb) s s5"
    by (rule heap_frame_mono [OF heap_frame_trans [OF f04 i(3)]])
      (use inW in \<open>auto simp: fl_cells_def G_def F1_def\<close>)
  show ?thesis
    using r1(1) r2(1) i(1,2,4) run fin fr unfolding s4m t_def F1_def by blast
qed

text \<open>
  C6. \<open>coalesce\<close> on a block \<open>bp\<close> that is on no free list and whose header and footer
  are marked free, with size \<open>sz\<close>, follows the four-case table. \<open>pb\<close> and \<open>nb\<close> are the
  neighbours and \<open>pa\<close>, \<open>na\<close> their alloc bits. The heap is well formed around the block:
  the listed blocks \<open>F\<close> are doubly linked lists (\<open>lists_ok\<close>), the link words of \<open>bp\<close>
  exist and are not cells of the lists (\<open>fl_new\<close>), the boundary tags of the three blocks
  are not cells of the lists, no header of a listed block is a footer of \<open>bp\<close> or \<open>nb\<close> or
  a link word of \<open>bp\<close>, the addresses increase from \<open>pb\<close> to \<open>bp\<close> to \<open>nb\<close>, and a free
  neighbour is a listed block with matching header and footer.
  Case 1 (both allocated): the block is inserted and returned.
  Case 2 (next free): \<open>nb\<close> is unlinked, the block is merged with it, inserted and returned.
  Case 3 (previous free): \<open>pb\<close> is unlinked, merged with the block, inserted and returned.
  Case 4 (both free): \<open>nb\<close> and \<open>pb\<close> are unlinked, the three blocks are merged into
  one at \<open>pb\<close>, which is inserted and returned.
  In each case the returned block is the head of the class of its size, the listed blocks
  without the unlinked neighbours and with the returned block are again doubly linked lists
  (so that no head and no link points to a block that was merged away), and only cells of
  the lists and the boundary tags of the three blocks have changed. In each merge case the
  header and the footer of the returned block hold the sum of the sizes with alloc bit 0.
\<close>

theorem coalesce_four_cases:
  assumes ok: "lists_ok s F" and new: "fl_new s F bp" and nbp: "bp \<notin> F"
      and ft: "free_tags s bp sz"
      and pb: "PREV_BLKP s bp = Some pb" and pa: "GET_ALLOC s (HDRP pb) = Some pa"
      and nb: "NEXT_BLKP s bp = Some nb" and na: "GET_ALLOC s (HDRP nb) = Some na"
      and sep: "(tags s bp \<union> tags s pb \<union> tags s nb) \<inter> fl_cells s (insert bp F) = {}"
      and hl: "\<forall>c\<in>F. HDRP c \<notin> set_option (FTRP s bp) \<union> set_option (FTRP s nb)
                                \<union> {prev_field bp, next_field bp}"
      and ord: "pb < bp" "bp < nb"
  shows "(pa \<noteq> 0 \<and> na \<noteq> 0 \<longrightarrow>
           (\<exists>s'. insert_free sz bp s = Some s' \<and> coalesce bp s = Some (bp, s')
              \<and> free_tags s' bp sz \<and> lists_ok s' (insert bp F)
              \<and> head_of s' (find_list sz) = bp
              \<and> heap_frame (fl_cells s (insert bp F) \<union> tags s bp \<union> tags s pb \<union> tags s nb) s s'))
       \<and> (pa \<noteq> 0 \<and> na = 0 \<and> nb \<in> F \<and> free_tags s nb nsz \<longrightarrow>
           (\<exists>s1 s'. remove_free nb s = Some s1
              \<and> insert_free (sz + nsz) bp (merged bp (sz + nsz) s1) = Some s'
              \<and> coalesce bp s = Some (bp, s') \<and> free_tags s' bp (sz + nsz)
              \<and> lists_ok s' (insert bp (F - {nb}))
              \<and> head_of s' (find_list (sz + nsz)) = bp
              \<and> heap_frame (fl_cells s (insert bp F) \<union> tags s bp \<union> tags s pb \<union> tags s nb) s s'))
       \<and> (pa = 0 \<and> na \<noteq> 0 \<and> pb \<in> F \<and> free_tags s pb psz \<and> NEXT_BLKP s pb = Some bp \<longrightarrow>
           (\<exists>s1 s'. remove_free pb s = Some s1
              \<and> insert_free (sz + psz) pb (merged pb (sz + psz) s1) = Some s'
              \<and> coalesce bp s = Some (pb, s') \<and> free_tags s' pb (sz + psz)
              \<and> lists_ok s' F \<and> head_of s' (find_list (sz + psz)) = pb
              \<and> heap_frame (fl_cells s (insert bp F) \<union> tags s bp \<union> tags s pb \<union> tags s nb) s s'))
       \<and> (pa = 0 \<and> na = 0 \<and> pb \<in> F \<and> nb \<in> F \<and> free_tags s pb psz
            \<and> NEXT_BLKP s pb = Some bp \<and> free_tags s nb nsz \<and> nb \<le> nb + nsz \<longrightarrow>
           (\<exists>s1 s2 s'. remove_free nb s = Some s1 \<and> remove_free pb s1 = Some s2
              \<and> insert_free (sz + (psz + nsz)) pb (merged pb (sz + (psz + nsz)) s2) = Some s'
              \<and> coalesce bp s = Some (pb, s') \<and> free_tags s' pb (sz + (psz + nsz))
              \<and> lists_ok s' (F - {nb}) \<and> head_of s' (find_list (sz + (psz + nsz))) = pb
              \<and> heap_frame (fl_cells s (insert bp F) \<union> tags s bp \<union> tags s pb \<union> tags s nb) s s'))"
proof -
  have gs: "GET_SIZE s (HDRP bp) = Some sz"
    using ft by (simp add: free_tags_def)
  have nbe: "nb = bp + sz"
    using nb NEXT_BLKP_eq [OF gs] by simp
  have nz: "sz \<noteq> 0"
    using ord(2) nbe by auto
  have pn: "pb \<noteq> nb"
    using ord by auto
  have sepF: "(tags s bp \<union> tags s pb \<union> tags s nb) \<inter> fl_cells s F = {}"
    using sep fl_cells_mono [of s F bp] by blast
  have sep1: "tags s bp \<inter> fl_cells s (insert bp F) = {}"
    using sep by blast
  have hl1: "\<forall>c\<in>F. HDRP c \<notin> {prev_field bp, next_field bp}"
    using hl by blast
  have k1: "pa \<noteq> 0 \<and> na \<noteq> 0 \<longrightarrow>
           (\<exists>s'. insert_free sz bp s = Some s' \<and> coalesce bp s = Some (bp, s')
              \<and> free_tags s' bp sz \<and> lists_ok s' (insert bp F)
              \<and> head_of s' (find_list sz) = bp
              \<and> heap_frame (fl_cells s (insert bp F) \<union> tags s bp \<union> tags s pb \<union> tags s nb) s s')"
    using coalesce_case1 [OF ok new nbp ft pb pa nb na sep1 hl1] by blast
  have sep2: "(tags s bp \<union> tags s nb) \<inter> fl_cells s (insert bp F) = {}"
    using sep by blast
  have hl2: "\<forall>c\<in>F. HDRP c \<notin> set_option (FTRP s nb) \<union> {prev_field bp, next_field bp}"
    using hl by blast
  have k2: "pa \<noteq> 0 \<and> na = 0 \<and> nb \<in> F \<and> free_tags s nb nsz \<longrightarrow>
           (\<exists>s1 s'. remove_free nb s = Some s1
              \<and> insert_free (sz + nsz) bp (merged bp (sz + nsz) s1) = Some s'
              \<and> coalesce bp s = Some (bp, s') \<and> free_tags s' bp (sz + nsz)
              \<and> lists_ok s' (insert bp (F - {nb}))
              \<and> head_of s' (find_list (sz + nsz)) = bp
              \<and> heap_frame (fl_cells s (insert bp F) \<union> tags s bp \<union> tags s pb \<union> tags s nb) s s')"
    using coalesce_case2 [OF ok new nbp ft pb pa nb na sep2 hl2] by blast
  have sep3: "(tags s bp \<union> tags s pb) \<inter> fl_cells s F = {}"
    using sepF by blast
  have hl3: "\<forall>c\<in>F. HDRP c \<notin> set_option (FTRP s bp)"
    using hl by blast
  have k3: "pa = 0 \<and> na \<noteq> 0 \<and> pb \<in> F \<and> free_tags s pb psz \<and> NEXT_BLKP s pb = Some bp \<longrightarrow>
           (\<exists>s1 s'. remove_free pb s = Some s1
              \<and> insert_free (sz + psz) pb (merged pb (sz + psz) s1) = Some s'
              \<and> coalesce bp s = Some (pb, s') \<and> free_tags s' pb (sz + psz)
              \<and> lists_ok s' F \<and> head_of s' (find_list (sz + psz)) = pb
              \<and> heap_frame (fl_cells s (insert bp F) \<union> tags s bp \<union> tags s pb \<union> tags s nb) s s')"
    using coalesce_case3 [OF ok nbp ft pb pa nb na sep3 hl3 _ _ _ _ _ nz] by blast
  have hl4: "\<forall>c\<in>F. HDRP c \<notin> set_option (FTRP s nb)"
    using hl by blast
  have k4: "pa = 0 \<and> na = 0 \<and> pb \<in> F \<and> nb \<in> F \<and> free_tags s pb psz
            \<and> NEXT_BLKP s pb = Some bp \<and> free_tags s nb nsz \<and> nb \<le> nb + nsz \<longrightarrow>
           (\<exists>s1 s2 s'. remove_free nb s = Some s1 \<and> remove_free pb s1 = Some s2
              \<and> insert_free (sz + (psz + nsz)) pb (merged pb (sz + (psz + nsz)) s2) = Some s'
              \<and> coalesce bp s = Some (pb, s') \<and> free_tags s' pb (sz + (psz + nsz))
              \<and> lists_ok s' (F - {nb}) \<and> head_of s' (find_list (sz + (psz + nsz))) = pb
              \<and> heap_frame (fl_cells s (insert bp F) \<union> tags s bp \<union> tags s pb \<union> tags s nb) s s')"
  proof (intro impI, elim conjE)
    assume c: "pa = 0" "na = 0" "pb \<in> F" "nb \<in> F" "free_tags s pb psz"
      "NEXT_BLKP s pb = Some bp" "free_tags s nb nsz" and w: "nb \<le> nb + nsz"
    have gp: "GET_SIZE s (HDRP pb) = Some psz"
      using c(5) by (simp add: free_tags_def)
    have bpe: "bp = pb + psz"
      using c(6) NEXT_BLKP_eq [OF gp] by simp
    have pz: "psz \<noteq> 0"
      using ord(1) bpe by auto
    have sn: "sz + nsz \<noteq> 0"
    proof
      assume "sz + nsz = 0"
      then have "nb + nsz = bp"
        by (simp add: nbe add.assoc)
      with w ord(2) show False
        by simp
    qed
    show "\<exists>s1 s2 s'. remove_free nb s = Some s1 \<and> remove_free pb s1 = Some s2
              \<and> insert_free (sz + (psz + nsz)) pb (merged pb (sz + (psz + nsz)) s2) = Some s'
              \<and> coalesce bp s = Some (pb, s') \<and> free_tags s' pb (sz + (psz + nsz))
              \<and> lists_ok s' (F - {nb}) \<and> head_of s' (find_list (sz + (psz + nsz))) = pb
              \<and> heap_frame (fl_cells s (insert bp F) \<union> tags s bp \<union> tags s pb \<union> tags s nb) s s'"
      by (rule coalesce_case4 [OF ok nbp ft pb pa nb na sepF hl4 c pz pn sn])
  qed
  show ?thesis
    using k1 k2 k3 k4 by blast
qed

lemma heap_four_ok: "lists_ok heap_four {0x10D0, 0x1110, 0x1170, 0x11B0}"
  by (simp add: lists_ok_def dll_def fl_eval fl_cells_def head_of_def prev_of_def next_of_def
      class_of_def word_at_def find_list_def heap_four_def run_simps)

lemmas tag_eval = free_tags_def tags_def fl_cells_def fl_new_def in_slots ex_less_8
  heap_four_def run_simps

theorem coalesce_four_cases_witness:
  "(\<exists>s'. insert_free 32 0x1070 heap_four = Some s'
       \<and> coalesce 0x1070 heap_four = Some (0x1070, s')
       \<and> lists_ok s' {0x1070, 0x10D0, 0x1110, 0x1170, 0x11B0}
       \<and> head_of s' (find_list 32) = 0x1070)
   \<and> (\<exists>s1 s'. remove_free 0x10D0 heap_four = Some s1
       \<and> insert_free 64 0x10B0 (merged 0x10B0 64 s1) = Some s'
       \<and> coalesce 0x10B0 heap_four = Some (0x10B0, s') \<and> free_tags s' 0x10B0 64
       \<and> lists_ok s' {0x10B0, 0x1110, 0x1170, 0x11B0}
       \<and> head_of s' (find_list 64) = 0x10B0)
   \<and> (\<exists>s1 s'. remove_free 0x1110 heap_four = Some s1
       \<and> insert_free 64 0x1110 (merged 0x1110 64 s1) = Some s'
       \<and> coalesce 0x1130 heap_four = Some (0x1110, s') \<and> free_tags s' 0x1110 64
       \<and> lists_ok s' {0x10D0, 0x1110, 0x1170, 0x11B0}
       \<and> head_of s' (find_list 64) = 0x1110)
   \<and> (\<exists>s1 s2 s'. remove_free 0x11B0 heap_four = Some s1 \<and> remove_free 0x1170 s1 = Some s2
       \<and> insert_free 96 0x1170 (merged 0x1170 96 s2) = Some s'
       \<and> coalesce 0x1190 heap_four = Some (0x1170, s') \<and> free_tags s' 0x1170 96
       \<and> lists_ok s' {0x10D0, 0x1110, 0x1170}
       \<and> head_of s' (find_list 96) = 0x1170)"
proof -
  let ?F = "{0x10D0, 0x1110, 0x1170, 0x11B0} :: addr set"
  have a: "\<exists>s'. insert_free 32 0x1070 heap_four = Some s'
       \<and> coalesce 0x1070 heap_four = Some (0x1070, s')
       \<and> lists_ok s' {0x1070, 0x10D0, 0x1110, 0x1170, 0x11B0}
       \<and> head_of s' (find_list 32) = 0x1070"
  proof -
    have h: "fl_new heap_four ?F 0x1070" "(0x1070 :: addr) \<notin> ?F" "free_tags heap_four 0x1070 32"
      "PREV_BLKP heap_four 0x1070 = Some 0x1020" "GET_ALLOC heap_four (HDRP 0x1020) = Some 1"
      "NEXT_BLKP heap_four 0x1070 = Some 0x1090" "GET_ALLOC heap_four (HDRP 0x1090) = Some 1"
      "(tags heap_four 0x1070 \<union> tags heap_four 0x1020 \<union> tags heap_four 0x1090)
         \<inter> fl_cells heap_four (insert 0x1070 ?F) = {}"
      "\<forall>c\<in>?F. HDRP c \<notin> set_option (FTRP heap_four 0x1070) \<union> set_option (FTRP heap_four 0x1090)
                                \<union> {prev_field 0x1070, next_field 0x1070}"
      "(0x1020 :: addr) < 0x1070" "(0x1070 :: addr) < 0x1090"
      by (simp_all add: tag_eval)
    from coalesce_four_cases [OF heap_four_ok h, where nsz = 0 and psz = 0] show ?thesis
      by simp blast
  qed
  have b: "\<exists>s1 s'. remove_free 0x10D0 heap_four = Some s1
       \<and> insert_free 64 0x10B0 (merged 0x10B0 64 s1) = Some s'
       \<and> coalesce 0x10B0 heap_four = Some (0x10B0, s') \<and> free_tags s' 0x10B0 64
       \<and> lists_ok s' {0x10B0, 0x1110, 0x1170, 0x11B0}
       \<and> head_of s' (find_list 64) = 0x10B0"
  proof -
    have h: "fl_new heap_four ?F 0x10B0" "(0x10B0 :: addr) \<notin> ?F" "free_tags heap_four 0x10B0 32"
      "PREV_BLKP heap_four 0x10B0 = Some 0x1090" "GET_ALLOC heap_four (HDRP 0x1090) = Some 1"
      "NEXT_BLKP heap_four 0x10B0 = Some 0x10D0" "GET_ALLOC heap_four (HDRP 0x10D0) = Some 0"
      "(tags heap_four 0x10B0 \<union> tags heap_four 0x1090 \<union> tags heap_four 0x10D0)
         \<inter> fl_cells heap_four (insert 0x10B0 ?F) = {}"
      "\<forall>c\<in>?F. HDRP c \<notin> set_option (FTRP heap_four 0x10B0) \<union> set_option (FTRP heap_four 0x10D0)
                                \<union> {prev_field 0x10B0, next_field 0x10B0}"
      "(0x1090 :: addr) < 0x10B0" "(0x10B0 :: addr) < 0x10D0"
      by (simp_all add: tag_eval)
    have c: "free_tags heap_four 0x10D0 32"
      by (simp add: tag_eval)
    have e: "insert 0x10B0 (?F - {0x10D0}) = {0x10B0, 0x1110, 0x1170, 0x11B0}"
      by auto
    from coalesce_four_cases [OF heap_four_ok h, where nsz = 32 and psz = 0] c e show ?thesis
      by simp blast
  qed
  have c: "\<exists>s1 s'. remove_free 0x1110 heap_four = Some s1
       \<and> insert_free 64 0x1110 (merged 0x1110 64 s1) = Some s'
       \<and> coalesce 0x1130 heap_four = Some (0x1110, s') \<and> free_tags s' 0x1110 64
       \<and> lists_ok s' {0x10D0, 0x1110, 0x1170, 0x11B0}
       \<and> head_of s' (find_list 64) = 0x1110"
  proof -
    have h: "fl_new heap_four ?F 0x1130" "(0x1130 :: addr) \<notin> ?F" "free_tags heap_four 0x1130 32"
      "PREV_BLKP heap_four 0x1130 = Some 0x1110" "GET_ALLOC heap_four (HDRP 0x1110) = Some 0"
      "NEXT_BLKP heap_four 0x1130 = Some 0x1150" "GET_ALLOC heap_four (HDRP 0x1150) = Some 1"
      "(tags heap_four 0x1130 \<union> tags heap_four 0x1110 \<union> tags heap_four 0x1150)
         \<inter> fl_cells heap_four (insert 0x1130 ?F) = {}"
      "\<forall>c\<in>?F. HDRP c \<notin> set_option (FTRP heap_four 0x1130) \<union> set_option (FTRP heap_four 0x1150)
                                \<union> {prev_field 0x1130, next_field 0x1130}"
      "(0x1110 :: addr) < 0x1130" "(0x1130 :: addr) < 0x1150"
      by (simp_all add: tag_eval)
    have c: "free_tags heap_four 0x1110 32" "NEXT_BLKP heap_four 0x1110 = Some 0x1130"
      by (simp_all add: tag_eval)
    from coalesce_four_cases [OF heap_four_ok h, where nsz = 0 and psz = 32] c show ?thesis
      by simp blast
  qed
  have d: "\<exists>s1 s2 s'. remove_free 0x11B0 heap_four = Some s1 \<and> remove_free 0x1170 s1 = Some s2
       \<and> insert_free 96 0x1170 (merged 0x1170 96 s2) = Some s'
       \<and> coalesce 0x1190 heap_four = Some (0x1170, s') \<and> free_tags s' 0x1170 96
       \<and> lists_ok s' {0x10D0, 0x1110, 0x1170}
       \<and> head_of s' (find_list 96) = 0x1170"
  proof -
    have h: "fl_new heap_four ?F 0x1190" "(0x1190 :: addr) \<notin> ?F" "free_tags heap_four 0x1190 32"
      "PREV_BLKP heap_four 0x1190 = Some 0x1170" "GET_ALLOC heap_four (HDRP 0x1170) = Some 0"
      "NEXT_BLKP heap_four 0x1190 = Some 0x11B0" "GET_ALLOC heap_four (HDRP 0x11B0) = Some 0"
      "(tags heap_four 0x1190 \<union> tags heap_four 0x1170 \<union> tags heap_four 0x11B0)
         \<inter> fl_cells heap_four (insert 0x1190 ?F) = {}"
      "\<forall>c\<in>?F. HDRP c \<notin> set_option (FTRP heap_four 0x1190) \<union> set_option (FTRP heap_four 0x11B0)
                                \<union> {prev_field 0x1190, next_field 0x1190}"
      "(0x1170 :: addr) < 0x1190" "(0x1190 :: addr) < 0x11B0"
      by (simp_all add: tag_eval)
    have c: "free_tags heap_four 0x1170 32" "NEXT_BLKP heap_four 0x1170 = Some 0x1190"
      "free_tags heap_four 0x11B0 32" "(0x11B0 :: addr) \<le> 0x11B0 + 32"
      by (simp_all add: tag_eval)
    have e: "?F - {0x11B0} = {0x10D0, 0x1110, 0x1170}"
      by auto
    from coalesce_four_cases [OF heap_four_ok h, where nsz = 32 and psz = 32] c e show ?thesis
      by simp blast
  qed
  show ?thesis
    using a b c d by blast
qed

section \<open>Freeing a block\<close>

lemma failedsize_irrelevant [simp]:
  "GET_SIZE (s\<lparr>failedsize := x\<rparr>) a = GET_SIZE s a"
  "GET_ALLOC (s\<lparr>failedsize := x\<rparr>) a = GET_ALLOC s a"
  "FTRP (s\<lparr>failedsize := x\<rparr>) b = FTRP s b"
  "NEXT_BLKP (s\<lparr>failedsize := x\<rparr>) b = NEXT_BLKP s b"
  "PREV_BLKP (s\<lparr>failedsize := x\<rparr>) b = PREV_BLKP s b"
  "tags (s\<lparr>failedsize := x\<rparr>) b = tags s b"
  "fl_cells (s\<lparr>failedsize := x\<rparr>) F = fl_cells s F"
  "free_tags (s\<lparr>failedsize := x\<rparr>) b n = free_tags s b n"
  "fl_new (s\<lparr>failedsize := x\<rparr>) F b = fl_new s F b"
  "fl_inv (s\<lparr>failedsize := x\<rparr>) F = fl_inv s F"
  "head_of (s\<lparr>failedsize := x\<rparr>) = head_of s"
  "prev_of (s\<lparr>failedsize := x\<rparr>) = prev_of s"
  "next_of (s\<lparr>failedsize := x\<rparr>) = next_of s"
  "class_of (s\<lparr>failedsize := x\<rparr>) = class_of s"
  by (simp_all add: GET_SIZE_def GET_ALLOC_def GET_def FTRP_def NEXT_BLKP_def PREV_BLKP_def
      tags_def fl_cells_def slots_def list_slot_def free_tags_def fl_new_def fl_inv_def
      head_of_def prev_of_def next_of_def class_of_def word_at_def fun_eq_iff)

lemma lists_ok_failedsize [simp]: "lists_ok (s\<lparr>failedsize := x\<rparr>) F = lists_ok s F"
  by (simp add: lists_ok_def)

lemma PREV_BLKP_aligned:
  assumes "PREV_BLKP s b = Some p"
  shows "\<exists>q. p = b - q \<and> q AND 15 = 0"
  using assms GET_SIZE_mult16 [of s "b - DSIZE"] by (auto simp: PREV_BLKP_def)

lemma coalesce_table:
  assumes ok: "lists_ok s F" and new: "fl_new s F bp" and nbp: "bp \<notin> F"
      and ft: "free_tags s bp sz"
      and pb: "PREV_BLKP s bp = Some pb" and pa: "GET_ALLOC s (HDRP pb) = Some pa"
      and nb: "NEXT_BLKP s bp = Some nb" and na: "GET_ALLOC s (HDRP nb) = Some na"
      and sep: "(tags s bp \<union> tags s pb \<union> tags s nb) \<inter> fl_cells s (insert bp F) = {}"
      and hl: "\<forall>c\<in>F. HDRP c \<notin> set_option (FTRP s bp) \<union> set_option (FTRP s nb)
                                \<union> {prev_field bp, next_field bp}"
      and ord: "pb < bp" "bp < nb"
      and pf: "pa = 0 \<longrightarrow> pb \<in> F \<and> free_tags s pb psz \<and> NEXT_BLKP s pb = Some bp"
      and nf: "na = 0 \<longrightarrow> nb \<in> F \<and> free_tags s nb nsz \<and> nb < nb + nsz"
  shows "\<exists>s'. coalesce bp s = Some (coalesced_block pa bp pb, s')
            \<and> free_tags s' (coalesced_block pa bp pb) (coalesced_size pa na sz psz nsz)
            \<and> head_of s' (find_list (coalesced_size pa na sz psz nsz)) = coalesced_block pa bp pb
            \<and> lists_ok s' (coalesced_set pa na bp pb nb F)
            \<and> heap_frame (fl_cells s (insert bp F) \<union> tags s bp \<union> tags s pb \<union> tags s nb) s s'"
proof -
  have gs: "GET_SIZE s (HDRP bp) = Some sz"
    using ft by (simp add: free_tags_def)
  have nbe: "nb = bp + sz"
    using nb NEXT_BLKP_eq [OF gs] by simp
  have nz: "sz \<noteq> 0"
    using ord(2) nbe by auto
  have pn: "pb \<noteq> nb"
    using ord by auto
  have sepF: "(tags s bp \<union> tags s pb \<union> tags s nb) \<inter> fl_cells s F = {}"
    using sep fl_cells_mono [of s F bp] by blast
  show ?thesis
  proof (cases "pa = 0")
    case pz: False
    show ?thesis
    proof (cases "na = 0")
      case False
      have sep1: "tags s bp \<inter> fl_cells s (insert bp F) = {}"
        using sep by blast
      have hl1: "\<forall>c\<in>F. HDRP c \<notin> {prev_field bp, next_field bp}"
        using hl by blast
      from coalesce_case1 [OF ok new nbp ft pb pa nb na sep1 hl1 pz False]
      show ?thesis
        using pz False by (auto simp: coalesced_block_def coalesced_size_def coalesced_set_def)
    next
      case True
      have sep2: "(tags s bp \<union> tags s nb) \<inter> fl_cells s (insert bp F) = {}"
        using sep by blast
      have hl2: "\<forall>c\<in>F. HDRP c \<notin> set_option (FTRP s nb) \<union> {prev_field bp, next_field bp}"
        using hl by blast
      have n: "nb \<in> F" "free_tags s nb nsz"
        using nf True by simp_all
      from coalesce_case2 [OF ok new nbp ft pb pa nb na sep2 hl2 pz True n]
      show ?thesis
        using pz True by (auto simp: coalesced_block_def coalesced_size_def coalesced_set_def)
    qed
  next
    case pz: True
    have p: "pb \<in> F" "free_tags s pb psz" "NEXT_BLKP s pb = Some bp"
      using pf pz by simp_all
    have e3: "insert pb (F - {pb}) = F"
      using p(1) by auto
    show ?thesis
    proof (cases "na = 0")
      case False
      have sep3: "(tags s bp \<union> tags s pb) \<inter> fl_cells s F = {}"
        using sepF by blast
      have hl3: "\<forall>c\<in>F. HDRP c \<notin> set_option (FTRP s bp)"
        using hl by blast
      from coalesce_case3 [OF ok nbp ft pb pa nb na sep3 hl3 pz False p nz]
      show ?thesis
        using pz False e3 by (auto simp: coalesced_block_def coalesced_size_def coalesced_set_def)
    next
      case True
      have hl4: "\<forall>c\<in>F. HDRP c \<notin> set_option (FTRP s nb)"
        using hl by blast
      have n: "nb \<in> F" "free_tags s nb nsz" and w: "nb < nb + nsz"
        using nf True by simp_all
      have gp: "GET_SIZE s (HDRP pb) = Some psz"
        using p(2) by (simp add: free_tags_def)
      have bpe: "bp = pb + psz"
        using p(3) NEXT_BLKP_eq [OF gp] by simp
      have pnz: "psz \<noteq> 0"
        using ord(1) bpe by auto
      have sn: "sz + nsz \<noteq> 0"
      proof
        assume "sz + nsz = 0"
        then have "nb + nsz = bp"
          by (simp add: nbe add.assoc)
        with w ord(2) show False
          by simp
      qed
      have e4: "insert pb (F - {pb} - {nb}) = F - {nb}"
        using p(1) pn by auto
      from coalesce_case4 [OF ok nbp ft pb pa nb na sepF hl4 pz True p(1) n(1) p(2,3) n(2) pnz pn sn]
      show ?thesis
        using pz True e4 by (auto simp: coalesced_block_def coalesced_size_def coalesced_set_def)
    qed
  qed
qed

lemma tags_eq: "FTRP s b = Some f \<Longrightarrow> tags s b = {HDRP b, f}"
  by (simp add: tags_def)

lemma tags_frame: "heap_frame C s s' \<Longrightarrow> HDRP b \<notin> C \<Longrightarrow> tags s' b = tags s b"
  using FTRP_frame [of C s s' b] by (simp add: tags_def)

lemma mm_free_ok:
  assumes env: "block_env s F bp sz pb pa psz nb na nsz"
  shows "\<exists>s'. mm_free bp s = Some s'
            \<and> free_tags s' (coalesced_block pa bp pb) (coalesced_size pa na sz psz nsz)
            \<and> head_of s' (find_list (coalesced_size pa na sz psz nsz)) = coalesced_block pa bp pb
            \<and> lists_ok s' (coalesced_set pa na bp pb nb F)
            \<and> (\<forall>a. a \<notin> fl_cells s (insert bp F) \<union> tags s bp \<union> tags s pb \<union> tags s nb
                   \<longrightarrow> mem s' a = mem s a)"
proof -
  have ok: "lists_ok s F" and new: "fl_new s F bp" and nbp: "bp \<notin> F"
    and gs: "GET_SIZE s (HDRP bp) = Some sz" and fm: "mem s (bp + sz - DSIZE) \<noteq> None"
    and pb: "PREV_BLKP s bp = Some pb" and pa: "GET_ALLOC s (HDRP pb) = Some pa"
    and nb: "NEXT_BLKP s bp = Some nb" and na: "GET_ALLOC s (HDRP nb) = Some na"
    and sep: "(tags s bp \<union> tags s pb \<union> tags s nb) \<inter> fl_cells s (insert bp F) = {}"
    and hl: "\<forall>c\<in>F. HDRP c \<notin> set_option (FTRP s bp) \<union> set_option (FTRP s nb)
                                \<union> {prev_field bp, next_field bp}"
    and ord: "pb < bp" "bp < nb"
    and pf: "pa = 0 \<longrightarrow> pb \<in> F \<and> free_tags s pb psz \<and> NEXT_BLKP s pb = Some bp"
    and nf: "na = 0 \<longrightarrow> nb \<in> F \<and> free_tags s nb nsz \<and> nb < nb + nsz"
    using env unfolding block_env_def by blast+
  define hdr where "hdr = HDRP bp"
  define ftr where "ftr = bp + sz - DSIZE"
  define pft where "pft = bp - DSIZE"
  define v where "v = PACK sz 0"
  define s1 where "s1 = s\<lparr>failedsize := (if sz = failedsize s then 0 else failedsize s)\<rparr>"
  define s2 where "s2 = s1\<lparr>mem := (mem s1)(hdr \<mapsto> v)\<rparr>"
  define s3 where "s3 = s2\<lparr>mem := (mem s2)(ftr \<mapsto> v)\<rparr>"
  have b0: "bp \<noteq> 0"
    using new by (simp add: fl_new_def)
  have szm: "sz AND 15 = 0"
    by (rule GET_SIZE_mult16 [OF gs])
  have nbe: "nb = bp + sz"
    using nb NEXT_BLKP_eq [OF gs] by simp
  have nz: "sz \<noteq> 0"
    using ord(2) nbe by auto
  from PREV_BLKP_aligned [OF pb] obtain q where q: "pb = bp - q" "q AND 15 = 0"
    by blast
  have fs: "FTRP s bp = Some ftr"
    unfolding ftr_def by (rule FTRP_eq [OF gs])
  have hf: "hdr \<noteq> ftr"
    unfolding hdr_def ftr_def by (rule hdr_neq_ftr [OF szm])
  have s1e: "(if sz = failedsize s then s\<lparr>failedsize := 0\<rparr> else s) = s1"
    by (simp add: s1_def)
  have m1: "mem s1 hdr \<noteq> None" "mem s1 ftr \<noteq> None"
    using GET_SIZE_mapped [OF gs] fm by (simp_all add: s1_def hdr_def ftr_def)
  have p2: "PUT hdr v s1 = Some s2"
    unfolding s2_def by (rule PUT_mapped [OF m1(1)])
  have m2: "mem s2 ftr \<noteq> None"
    using m1(2) by (simp add: s2_def)
  have p3: "PUT ftr v s2 = Some s3"
    unfolding s3_def by (rule PUT_mapped [OF m2])
  have g2: "GET_SIZE s2 (HDRP bp) = Some sz"
    by (rule tag_written [OF szm]) (simp add: s2_def hdr_def v_def)
  have f2: "FTRP s2 bp = Some ftr"
    unfolding ftr_def by (rule FTRP_eq [OF g2])
  have run: "mm_free bp s = do { (r, s4) \<leftarrow> coalesce bp s3; Some s4 }"
    using b0 gs p2 f2 p3 unfolding mm_free_def by (simp add: s1e hdr_def v_def)
  have fr: "heap_frame {hdr, ftr} s1 s3"
    using m1 by (auto simp: heap_frame_def s3_def s2_def)
  have w3: "mem s3 hdr = Some v" "mem s3 ftr = Some v"
    using hf by (simp_all add: s3_def s2_def)
  have ft3: "free_tags s3 bp sz"
    by (rule free_tags_written [OF szm]) (use w3 in \<open>simp_all add: hdr_def ftr_def v_def\<close>)
  have d1: "pft \<noteq> hdr" "pft \<noteq> ftr"
    using nz by (simp_all add: pft_def hdr_def ftr_def HDRP_def)
  have sq: "sz + q \<noteq> 8"
    by (rule mult16_neq8 [OF add_mult16 [OF szm q(2)]])
  have d2: "HDRP pb \<noteq> hdr" "HDRP pb \<noteq> ftr"
  proof -
    show "HDRP pb \<noteq> hdr"
      using ord(1) by (simp add: hdr_def HDRP_inj)
    show "HDRP pb \<noteq> ftr"
    proof
      assume "HDRP pb = ftr"
      then have "sz + q = 8"
        unfolding q(1) ftr_def HDRP_def by (simp add: algebra_simps)
      with sq show False
        by simp
    qed
  qed
  have d3: "HDRP nb \<noteq> hdr" "HDRP nb \<noteq> ftr"
    using nz by (simp_all add: nbe hdr_def ftr_def HDRP_def)
  have t0: "tags s bp = {hdr, ftr}"
    using tags_eq [OF fs] by (simp add: hdr_def)
  have T: "hdr \<notin> fl_cells s F" "ftr \<notin> fl_cells s F"
    using sep fl_cells_mono [of s F bp] unfolding t0 by auto
  have hh: "hdr \<notin> HDRP ` F" "ftr \<notin> HDRP ` F"
    using hl nbp fs by (auto simp: hdr_def HDRP_inj)
  have ok1: "lists_ok s1 F" and new1: "fl_new s1 F bp"
    using ok new by (simp_all add: s1_def)
  have ok3: "lists_ok s3 F"
    by (rule lists_ok_frame [OF ok1 fr]) (use T hh in \<open>auto simp: s1_def\<close>)
  have new3: "fl_new s3 F bp"
    by (rule fl_new_frame [OF new1 fr])
  have pb3: "PREV_BLKP s3 bp = Some pb"
    using PREV_BLKP_frame [OF fr, of bp] d1 pb by (simp add: pft_def s1_def)
  have pa3: "GET_ALLOC s3 (HDRP pb) = Some pa"
    using GET_ALLOC_frame [OF fr, of "HDRP pb"] d2 pa by (simp add: s1_def)
  have nb3: "NEXT_BLKP s3 bp = Some nb"
    using NEXT_BLKP_eq [of s3 bp sz] ft3 nbe by (simp add: free_tags_def)
  have na3: "GET_ALLOC s3 (HDRP nb) = Some na"
    using GET_ALLOC_frame [OF fr, of "HDRP nb"] d3 na by (simp add: s1_def)
  have f3: "FTRP s3 bp = Some ftr"
    using ft3 by (simp add: free_tags_def ftr_def)
  have fp3: "FTRP s3 pb = FTRP s pb" and fn3: "FTRP s3 nb = FTRP s nb"
    using FTRP_frame [OF fr, of pb] FTRP_frame [OF fr, of nb] d2 d3 by (simp_all add: s1_def)
  have tg: "tags s3 bp = tags s bp" "tags s3 pb = tags s pb" "tags s3 nb = tags s nb"
    using tags_eq [OF f3] t0 fp3 fn3 by (simp_all add: hdr_def tags_def)
  have fc: "fl_cells s3 G = fl_cells s G" for G
    using fl_cells_frame [OF fr, of G] by (simp add: s1_def)
  have sep3: "(tags s3 bp \<union> tags s3 pb \<union> tags s3 nb) \<inter> fl_cells s3 (insert bp F) = {}"
    unfolding tg fc by (rule sep)
  have hl3: "\<forall>c\<in>F. HDRP c \<notin> set_option (FTRP s3 bp) \<union> set_option (FTRP s3 nb)
                                \<union> {prev_field bp, next_field bp}"
    unfolding f3 fn3 using hl fs by simp
  have pf3: "pa = 0 \<longrightarrow> pb \<in> F \<and> free_tags s3 pb psz \<and> NEXT_BLKP s3 pb = Some bp"
  proof
    assume z: "pa = 0"
    then have p: "pb \<in> F" "free_tags s pb psz" "NEXT_BLKP s pb = Some bp"
      using pf by simp_all
    have gp: "GET_SIZE s (HDRP pb) = Some psz"
      using p(2) by (simp add: free_tags_def)
    have bpe: "bp = pb + psz"
      using p(3) NEXT_BLKP_eq [OF gp] by simp
    have e: "pb + psz - DSIZE = pft"
      by (simp add: bpe pft_def)
    have "free_tags s1 pb psz"
      using p(2) by (simp add: s1_def)
    then have "free_tags s3 pb psz"
      by (rule free_tags_frame [OF _ fr]) (use d1 d2 e in auto)
    moreover have "NEXT_BLKP s3 pb = Some bp"
      using NEXT_BLKP_frame [OF fr, of pb] d2 p(3) by (simp add: s1_def)
    ultimately show "pb \<in> F \<and> free_tags s3 pb psz \<and> NEXT_BLKP s3 pb = Some bp"
      using p(1) by simp
  qed
  have nf3: "na = 0 \<longrightarrow> nb \<in> F \<and> free_tags s3 nb nsz \<and> nb < nb + nsz"
  proof
    assume z: "na = 0"
    then have n: "nb \<in> F" "free_tags s nb nsz" "nb < nb + nsz"
      using nf by simp_all
    have gn: "GET_SIZE s (HDRP nb) = Some nsz"
      using n(2) by (simp add: free_tags_def)
    have nm: "nsz AND 15 = 0"
      by (rule GET_SIZE_mult16 [OF gn])
    have n0: "nsz \<noteq> 0"
      using n(3) by auto
    have sn: "sz + nsz \<noteq> 8"
      by (rule mult16_neq8 [OF add_mult16 [OF szm nm]])
    have e1: "nb + nsz - DSIZE \<noteq> ftr"
      using n0 by (simp add: nbe ftr_def)
    have e2: "nb + nsz - DSIZE \<noteq> hdr"
    proof
      assume "nb + nsz - DSIZE = hdr"
      then have "sz + nsz = 8"
        unfolding nbe hdr_def HDRP_def by (simp add: algebra_simps)
      with sn show False
        by simp
    qed
    have "free_tags s1 nb nsz"
      using n(2) by (simp add: s1_def)
    then have "free_tags s3 nb nsz"
      by (rule free_tags_frame [OF _ fr]) (use d3 e1 e2 in auto)
    then show "nb \<in> F \<and> free_tags s3 nb nsz \<and> nb < nb + nsz"
      using n by simp
  qed
  from coalesce_table [OF ok3 new3 nbp ft3 pb3 pa3 nb3 na3 sep3 hl3 ord pf3 nf3]
  obtain s4 where c: "coalesce bp s3 = Some (coalesced_block pa bp pb, s4)"
      "free_tags s4 (coalesced_block pa bp pb) (coalesced_size pa na sz psz nsz)"
      "head_of s4 (find_list (coalesced_size pa na sz psz nsz)) = coalesced_block pa bp pb"
      "lists_ok s4 (coalesced_set pa na bp pb nb F)"
      "heap_frame (fl_cells s (insert bp F) \<union> tags s bp \<union> tags s pb \<union> tags s nb) s3 s4"
    unfolding tg fc by blast
  have fin: "mem s4 a = mem s a"
    if a: "a \<notin> fl_cells s (insert bp F) \<union> tags s bp \<union> tags s pb \<union> tags s nb" for a
  proof -
    have "a \<noteq> hdr" "a \<noteq> ftr"
      using a t0 by auto
    then have "mem s3 a = mem s a"
      by (simp add: s3_def s2_def s1_def)
    then show ?thesis
      using frame_mem [OF c(5) a] by simp
  qed
  have "mm_free bp s = Some s4"
    unfolding run using c(1) by simp
  then show ?thesis
    using c(2,3,4) fin by blast
qed

lemma word_cells_Suc: "word_cells a (Suc n) = insert a (word_cells (a + 8) n)"
proof -
  have "{..<Suc n} = insert 0 (Suc ` {..<n})"
    by (auto simp: lessThan_Suc_eq_insert_0)
  then show ?thesis
    unfolding word_cells_def by (simp add: image_image cell_Suc del: of_nat_Suc)
qed

lemma in_word_cells: "k < n \<Longrightarrow> a + 8 * of_nat k \<in> word_cells a n"
  by (auto simp: word_cells_def)

lemma memcpy_words_total:
  assumes "\<forall>k<n. mem s (src + 8 * of_nat k) \<noteq> None \<and> mem s (dst + 8 * of_nat k) \<noteq> None"
  shows "\<exists>s'. memcpy_words n dst src s = Some s' \<and> heap_frame (word_cells dst n) s s'"
  using assms
proof (induction n arbitrary: dst src s)
  case 0
  then show ?case
    by (simp add: heap_frame_refl)
next
  case (Suc n)
  have "mem s (src + 8 * of_nat (0::nat)) \<noteq> None \<and> mem s (dst + 8 * of_nat (0::nat)) \<noteq> None"
    using Suc.prems by blast
  then obtain v where v: "mem s src = Some v" and d: "mem s dst \<noteq> None"
    by auto
  define s1 where "s1 = s\<lparr>mem := (mem s)(dst \<mapsto> v)\<rparr>"
  have f1: "heap_frame {dst} s s1"
    unfolding s1_def by (rule heap_frame_PUT [OF d])
  have m: "\<forall>k<n. mem s1 ((src + 8) + 8 * of_nat k) \<noteq> None \<and> mem s1 ((dst + 8) + 8 * of_nat k) \<noteq> None"
  proof (intro allI impI)
    fix k assume "k < n"
    then have "Suc k < Suc n"
      by simp
    then have "mem s (src + 8 * of_nat (Suc k)) \<noteq> None \<and> mem s (dst + 8 * of_nat (Suc k)) \<noteq> None"
      using Suc.prems by blast
    then have "mem s ((src + 8) + 8 * of_nat k) \<noteq> None \<and> mem s ((dst + 8) + 8 * of_nat k) \<noteq> None"
      unfolding cell_Suc .
    then show "mem s1 ((src + 8) + 8 * of_nat k) \<noteq> None \<and> mem s1 ((dst + 8) + 8 * of_nat k) \<noteq> None"
      using frame_dom [OF f1] by simp
  qed
  from Suc.IH [OF m] obtain s' where r: "memcpy_words n (dst + 8) (src + 8) s1 = Some s'"
    and f2: "heap_frame (word_cells (dst + 8) n) s1 s'"
    by blast
  have "memcpy_words (Suc n) dst src s = Some s'"
    using v d r by (simp add: GET_def PUT_mapped s1_def)
  moreover have "heap_frame (word_cells dst (Suc n)) s s'"
    unfolding word_cells_Suc using heap_frame_trans [OF f1 f2] by simp
  ultimately show ?case
    by blast
qed

lemma block_env_frame:
  assumes env: "block_env s F bp sz pb pa psz nb na nsz" and fr: "heap_frame D s s'"
      and dj: "D \<inter> env_cells s F bp pb nb = {}"
  shows "block_env s' F bp sz pb pa psz nb na nsz"
proof -
  have ok: "lists_ok s F" and new: "fl_new s F bp" and nbp: "bp \<notin> F"
    and gs: "GET_SIZE s (HDRP bp) = Some sz" and fm: "mem s (bp + sz - DSIZE) \<noteq> None"
    and pb: "PREV_BLKP s bp = Some pb" and pa: "GET_ALLOC s (HDRP pb) = Some pa"
    and nb: "NEXT_BLKP s bp = Some nb" and na: "GET_ALLOC s (HDRP nb) = Some na"
    and sep: "(tags s bp \<union> tags s pb \<union> tags s nb) \<inter> fl_cells s (insert bp F) = {}"
    and hl: "\<forall>c\<in>F. HDRP c \<notin> set_option (FTRP s bp) \<union> set_option (FTRP s nb)
                                \<union> {prev_field bp, next_field bp}"
    and ord: "pb < bp" "bp < nb"
    and pf: "pa = 0 \<longrightarrow> pb \<in> F \<and> free_tags s pb psz \<and> NEXT_BLKP s pb = Some bp"
    and nf: "na = 0 \<longrightarrow> nb \<in> F \<and> free_tags s nb nsz \<and> nb < nb + nsz"
    using env unfolding block_env_def by blast+
  have D: "D \<inter> fl_cells s F = {}" "D \<inter> HDRP ` F = {}" "HDRP bp \<notin> D" "HDRP pb \<notin> D"
    "HDRP nb \<notin> D" "bp - DSIZE \<notin> D" "D \<inter> tags s nb = {}"
    using dj fl_cells_mono [of s F bp] by (auto simp: env_cells_def tags_def)
  have a1: "lists_ok s' F"
    by (rule lists_ok_frame [OF ok fr D(1,2)])
  have a2: "fl_new s' F bp"
    by (rule fl_new_frame [OF new fr])
  have a3: "GET_SIZE s' (HDRP bp) = Some sz"
    using GET_SIZE_frame [OF fr D(3)] gs by simp
  have a4: "mem s' (bp + sz - DSIZE) \<noteq> None"
    using frame_dom [OF fr] fm by simp
  have a5: "PREV_BLKP s' bp = Some pb"
    using PREV_BLKP_frame [OF fr D(6)] pb by simp
  have a6: "GET_ALLOC s' (HDRP pb) = Some pa" "GET_ALLOC s' (HDRP nb) = Some na"
    using GET_ALLOC_frame [OF fr D(4)] GET_ALLOC_frame [OF fr D(5)] pa na by simp_all
  have a7: "NEXT_BLKP s' bp = Some nb"
    using NEXT_BLKP_frame [OF fr D(3)] nb by simp
  have ff: "FTRP s' bp = FTRP s bp" "FTRP s' nb = FTRP s nb"
    using FTRP_frame [OF fr D(3)] FTRP_frame [OF fr D(5)] by simp_all
  have tg: "tags s' bp = tags s bp" "tags s' pb = tags s pb" "tags s' nb = tags s nb"
    using tags_frame [OF fr D(3)] tags_frame [OF fr D(4)] tags_frame [OF fr D(5)] by simp_all
  have a8: "(tags s' bp \<union> tags s' pb \<union> tags s' nb) \<inter> fl_cells s' (insert bp F) = {}"
    unfolding tg fl_cells_frame [OF fr] by (rule sep)
  have a9: "\<forall>c\<in>F. HDRP c \<notin> set_option (FTRP s' bp) \<union> set_option (FTRP s' nb)
                                \<union> {prev_field bp, next_field bp}"
    unfolding ff by (rule hl)
  have a10: "pa = 0 \<longrightarrow> pb \<in> F \<and> free_tags s' pb psz \<and> NEXT_BLKP s' pb = Some bp"
  proof
    assume "pa = 0"
    then have p: "pb \<in> F" "free_tags s pb psz" "NEXT_BLKP s pb = Some bp"
      using pf by simp_all
    have gp: "GET_SIZE s (HDRP pb) = Some psz"
      using p(2) by (simp add: free_tags_def)
    have bpe: "bp = pb + psz"
      using p(3) NEXT_BLKP_eq [OF gp] by simp
    have e: "pb + psz - DSIZE = bp - DSIZE"
      by (simp add: bpe)
    have "free_tags s' pb psz"
      by (rule free_tags_frame [OF p(2) fr D(4)]) (use D(6) e in simp)
    then show "pb \<in> F \<and> free_tags s' pb psz \<and> NEXT_BLKP s' pb = Some bp"
      using p NEXT_BLKP_frame [OF fr D(4)] by simp
  qed
  have a11: "na = 0 \<longrightarrow> nb \<in> F \<and> free_tags s' nb nsz \<and> nb < nb + nsz"
  proof
    assume "na = 0"
    then have n: "nb \<in> F" "free_tags s nb nsz" "nb < nb + nsz"
      using nf by simp_all
    have "FTRP s nb = Some (nb + nsz - DSIZE)"
      using n(2) by (simp add: free_tags_def)
    then have "nb + nsz - DSIZE \<notin> D"
      using D(7) by (auto simp: tags_def)
    then have "free_tags s' nb nsz"
      by (rule free_tags_frame [OF n(2) fr D(5)])
    then show "nb \<in> F \<and> free_tags s' nb nsz \<and> nb < nb + nsz"
      using n by simp
  qed
  show ?thesis
    unfolding block_env_def using a1 a2 nbp a3 a4 a5 a6 a7 a8 a9 ord a10 a11 by simp
qed

lemma env_cells_frame:
  assumes fr: "heap_frame D s s'" and dj: "D \<inter> env_cells s F bp pb nb = {}"
  shows "fl_cells s' (insert bp F) \<union> tags s' bp \<union> tags s' pb \<union> tags s' nb
           = fl_cells s (insert bp F) \<union> tags s bp \<union> tags s pb \<union> tags s nb"
proof -
  have D: "HDRP bp \<notin> D" "HDRP pb \<notin> D" "HDRP nb \<notin> D"
    using dj by (auto simp: env_cells_def tags_def)
  show ?thesis
    using tags_frame [OF fr D(1)] tags_frame [OF fr D(2)] tags_frame [OF fr D(3)]
      fl_cells_frame [OF fr, of "insert bp F"] by simp
qed

text \<open>
  C5, amended. In the relocation case (\<open>ptr\<close> and the size not null, the adjusted size
  above the old block size, the next block not the epilogue), after a successful inner
  \<open>mm_malloc\<close> that leaves the state \<open>s1\<close>, \<open>mm_realloc\<close> returns the new payload address
  \<open>newptr\<close>. It has copied \<open>oldsize\<close> bytes, the size of the old block as its header
  gives it (the old payload and the DSIZE bytes after it): each of the
  \<open>oldsize / WSIZE\<close> words from \<open>newptr\<close> on holds, in the final state, the word at the
  same offset from \<open>ptr\<close>. The old block has been freed: the block that the four-case
  table gives for it (itself, or the free predecessor it was merged into) has header and
  footer marked free, with the merged size, and is the head of the free list of its class,
  and the free lists are doubly linked lists again. Every word outside the copied range,
  the cells of the lists and the boundary tags of the old block and its neighbours is as
  \<open>mm_malloc\<close> left it. The hypotheses say that the words of both ranges exist, that the
  ranges do not meet, that the surroundings of the old block are well formed after the
  allocation (\<open>block_env\<close>), and that the new range holds none of the cells these
  conditions read.
\<close>

theorem mm_realloc_relocates:
  assumes nn: "ptr \<noteq> NULL" and nz: "sz \<noteq> 0"
      and hd: "GET_SIZE s (HDRP ptr) = Some oldsize"
      and grow: "oldsize < adjust sz"
      and nx: "NEXT_BLKP s ptr = Some nb0" "GET_SIZE s (HDRP nb0) = Some nsz0" "nsz0 \<noteq> 0"
      and al: "mm_malloc sz s = Some (newptr, s1)"
      and mp: "\<forall>k<unat (oldsize div WSIZE).
                 mem s1 (ptr + 8 * of_nat k) \<noteq> None \<and> mem s1 (newptr + 8 * of_nat k) \<noteq> None"
      and dj: "\<forall>i<unat (oldsize div WSIZE). \<forall>j<unat (oldsize div WSIZE).
                 newptr + 8 * of_nat i \<noteq> ptr + 8 * of_nat j"
      and env: "block_env s1 F ptr oldsize pb pa psz nb na nsz"
      and ds: "word_cells newptr (unat (oldsize div WSIZE)) \<inter> env_cells s1 F ptr pb nb = {}"
  shows "\<exists>s'. mm_realloc ptr sz s = Some (newptr, s')
           \<and> mm_realloc ptr sz s = relocate oldsize ptr sz s
           \<and> (\<forall>k<unat (oldsize div WSIZE).
                 mem s' (newptr + 8 * of_nat k) = mem s1 (ptr + 8 * of_nat k))
           \<and> free_tags s' (coalesced_block pa ptr pb) (coalesced_size pa na oldsize psz nsz)
           \<and> head_of s' (find_list (coalesced_size pa na oldsize psz nsz)) = coalesced_block pa ptr pb
           \<and> lists_ok s' (coalesced_set pa na ptr pb nb F)
           \<and> (\<forall>a. a \<notin> word_cells newptr (unat (oldsize div WSIZE))
                       \<union> fl_cells s1 (insert ptr F) \<union> tags s1 ptr \<union> tags s1 pb \<union> tags s1 nb
                  \<longrightarrow> mem s' a = mem s1 a)"
proof -
  define n where "n = unat (oldsize div 8)"
  define D where "D = word_cells newptr n"
  define W where "W = fl_cells s1 (insert ptr F) \<union> tags s1 ptr \<union> tags s1 pb \<union> tags s1 nb"
  have mp': "\<forall>k<n. mem s1 (ptr + 8 * of_nat k) \<noteq> None \<and> mem s1 (newptr + 8 * of_nat k) \<noteq> None"
    using mp by (simp add: n_def)
  have dj': "\<forall>i<n. \<forall>j<n. newptr + 8 * of_nat i \<noteq> ptr + 8 * of_nat j"
    using dj by (simp add: n_def)
  have ds': "D \<inter> env_cells s1 F ptr pb nb = {}"
    using ds by (simp add: D_def n_def)
  from memcpy_words_total [OF mp', of ] obtain s2
    where c: "memcpy_words n newptr ptr s1 = Some s2" and fr: "heap_frame D s1 s2"
    unfolding D_def by blast
  have cp: "memcpy newptr ptr oldsize s1 = Some s2"
    using c by (simp add: memcpy_def n_def)
  have n61: "n < 2 ^ 61"
    unfolding n_def by (rule unat_div8_bound)
  have copied: "\<forall>k<n. mem s2 (newptr + 8 * of_nat k) = mem s1 (ptr + 8 * of_nat k)"
    using memcpy_words_copies [OF c n61 dj'] by blast
  have env2: "block_env s2 F ptr oldsize pb pa psz nb na nsz"
    by (rule block_env_frame [OF env fr ds'])
  have W2: "fl_cells s2 (insert ptr F) \<union> tags s2 ptr \<union> tags s2 pb \<union> tags s2 nb = W"
    unfolding W_def by (rule env_cells_frame [OF fr ds'])
  from mm_free_ok [OF env2] obtain s3 where f: "mm_free ptr s2 = Some s3"
    and r: "free_tags s3 (coalesced_block pa ptr pb) (coalesced_size pa na oldsize psz nsz)"
      "head_of s3 (find_list (coalesced_size pa na oldsize psz nsz)) = coalesced_block pa ptr pb"
      "lists_ok s3 (coalesced_set pa na ptr pb nb F)"
    and keep: "\<And>a. a \<notin> W \<Longrightarrow> mem s3 a = mem s2 a"
    unfolding W2 by blast
  have WE: "W \<subseteq> env_cells s1 F ptr pb nb"
    by (auto simp: W_def env_cells_def)
  have k1: "\<forall>k<n. mem s3 (newptr + 8 * of_nat k) = mem s1 (ptr + 8 * of_nat k)"
  proof (intro allI impI)
    fix k assume k: "k < n"
    have "newptr + 8 * of_nat k \<in> D"
      unfolding D_def by (rule in_word_cells [OF k])
    then have "newptr + 8 * of_nat k \<notin> W"
      using ds' WE by auto
    then show "mem s3 (newptr + 8 * of_nat k) = mem s1 (ptr + 8 * of_nat k)"
      using keep copied k by simp
  qed
  have k2: "\<forall>a. a \<notin> D \<union> W \<longrightarrow> mem s3 a = mem s1 a"
    using keep frame_mem [OF fr] by simp
  have "\<not> adjust sz \<le> oldsize"
    using grow by simp
  then have run: "mm_realloc ptr sz s = Some (newptr, s3)"
    using nn nz hd nx al cp f by (simp add: mm_realloc_def Let_def)
  have rel: "relocate oldsize ptr sz s = Some (newptr, s3)"
    using al cp f by (simp add: relocate_def)
  show ?thesis
    using run rel k1 k2 r unfolding D_def W_def n_def by simp
qed

theorem mm_realloc_relocates_witness:
  "GET_SIZE heap_pq (HDRP 0x1070) = Some 64 \<and> 64 < adjust 100 \<and>
   NEXT_BLKP heap_pq 0x1070 = Some 0x10B0 \<and> GET_SIZE heap_pq (HDRP 0x10B0) = Some 64 \<and>
   mm_malloc 100 heap_pq = Some (0x10F0, heap_pq_alloc) \<and>
   block_env heap_pq_alloc {} 0x1070 64 0x1020 1 0 0x10B0 1 0 \<and>
   (\<exists>s'. mm_realloc 0x1070 100 heap_pq = Some (0x10F0, s')
      \<and> mm_realloc 0x1070 100 heap_pq = relocate 64 0x1070 100 heap_pq
      \<and> (\<forall>k<8. mem s' (0x10F0 + 8 * of_nat k) = mem heap_pq_alloc (0x1070 + 8 * of_nat k))
      \<and> free_tags s' 0x1070 64 \<and> head_of s' (find_list 64) = 0x1070 \<and> lists_ok s' {0x1070})"
proof -
  have u: "unat ((64 :: 64 word) div WSIZE) = 8"
    by simp
  have h: "(0x1070 :: addr) \<noteq> NULL" "(100 :: 64 word) \<noteq> 0"
      "GET_SIZE heap_pq (HDRP 0x1070) = Some 64" "64 < adjust 100"
      "NEXT_BLKP heap_pq 0x1070 = Some 0x10B0" "GET_SIZE heap_pq (HDRP 0x10B0) = Some 64"
      "(64 :: 64 word) \<noteq> 0"
    by (simp_all add: heap_pq_def adjust_def run_simps)
  have mp: "\<forall>k<unat ((64 :: 64 word) div WSIZE).
      mem heap_pq_alloc (0x1070 + 8 * of_nat k) \<noteq> None \<and> mem heap_pq_alloc (0x10F0 + 8 * of_nat k) \<noteq> None"
    unfolding u by (simp add: all_less_8 heap_pq_alloc_def run_simps)
  have dj: "\<forall>i<unat ((64 :: 64 word) div WSIZE). \<forall>j<unat ((64 :: 64 word) div WSIZE).
      (0x10F0 :: addr) + 8 * of_nat i \<noteq> 0x1070 + 8 * of_nat j"
    unfolding u by (simp add: all_less_8)
  have env: "block_env heap_pq_alloc {} 0x1070 64 0x1020 1 0 0x10B0 1 0"
    by (simp add: block_env_def lists_ok_def dll_def fl_eval fl_cells_def tags_def head_of_def
        word_at_def heap_pq_alloc_def run_simps)
  have ds: "word_cells 0x10F0 (unat ((64 :: 64 word) div WSIZE))
              \<inter> env_cells heap_pq_alloc {} 0x1070 0x1020 0x10B0 = {}"
    unfolding u
    by (simp add: word_cells_def env_cells_def fl_cells_def tags_def in_slots ex_less_8
        lessThan_nat_numeral lessThan_Suc heap_pq_alloc_def run_simps)
  have e: "coalesced_block 1 0x1070 0x1020 = 0x1070" "coalesced_size 1 1 64 0 0 = 64"
    "coalesced_set 1 1 0x1070 0x1020 0x10B0 {} = {0x1070}"
    by (simp_all add: coalesced_block_def coalesced_size_def coalesced_set_def)
  from mm_realloc_relocates [OF h heap_pq_alloc_reached mp dj env ds]
  have "\<exists>s'. mm_realloc 0x1070 100 heap_pq = Some (0x10F0, s')
      \<and> mm_realloc 0x1070 100 heap_pq = relocate 64 0x1070 100 heap_pq
      \<and> (\<forall>k<8. mem s' (0x10F0 + 8 * of_nat k) = mem heap_pq_alloc (0x1070 + 8 * of_nat k))
      \<and> free_tags s' 0x1070 64 \<and> head_of s' (find_list 64) = 0x1070 \<and> lists_ok s' {0x1070}"
    unfolding u e by blast
  then show ?thesis
    using h heap_pq_alloc_reached env by blast
qed

section \<open>A run of the interface that breaks the invariant of the heads\<close>

lemma heap_t1_reached: "mm_malloc 50 heap_init = Some (0x1070, heap_t1)"
  unfolding heap_init_def heap_t1_def
  by (simp add: op_defs run_simps) (auto simp: fun_eq_iff)

lemma heap_t2_reached: "mm_free 0x1070 heap_t1 = Some heap_t2"
  unfolding heap_t1_def heap_t2_def
  by (simp add: op_defs run_simps) (auto simp: fun_eq_iff)

lemma heap_t3_reached: "mm_malloc 0xFFFFFFFFFFFFFFE1 heap_t2 = Some (0x10C0, heap_t3)"
  unfolding heap_t2_def heap_t3_def
  by (simp add: op_defs run_simps) (auto simp: fun_eq_iff)

lemma heap_t4_reached: "mm_free 0x10C0 heap_t3 = Some heap_t4"
  unfolding heap_t3_def heap_t4_def
  by (simp add: op_defs run_simps) (auto simp: fun_eq_iff)

lemma heap_t5_reached: "mm_malloc 50 heap_t4 = Some (0x1070, heap_t5)"
  unfolding heap_t4_def heap_t5_def
  by (simp add: op_defs run_simps) (auto simp: fun_eq_iff)

lemma heap_t6_reached: "mm_malloc 1 heap_t5 = Some (0x10C0, heap_t6)"
  unfolding heap_t5_def heap_t6_def
  by (simp add: op_defs run_simps) (auto simp: fun_eq_iff)

lemma heap_t7_reached: "mm_free 0x10C0 heap_t6 = Some heap_t7"
  unfolding heap_t6_def heap_t7_def
  by (simp add: op_defs run_simps) (auto simp: fun_eq_iff)

lemma heap_t7_head: "mem heap_t7 (list_slot heap_t7 0) = Some 0x10C0"
  "mem heap_t7 (prev_field 0x10C0) = Some 0x10C0"
  by (simp_all add: heap_t7_def run_simps)

lemma heap_t7_not_heads_prev_null: "\<not> heads_prev_null heap_t7"
proof
  assume "heads_prev_null heap_t7"
  then have "\<exists>h. mem heap_t7 (list_slot heap_t7 0) = Some h
      \<and> (h = NULL \<or> mem heap_t7 (prev_field h) = Some NULL)"
    unfolding heads_prev_null_def by simp
  then show False
    using heap_t7_head by simp
qed

text \<open>
  C10. The invariant does not hold in every state between two calls of the interface.
  On the arena from 0x1000 to 0x2000 the calls \<open>mm_init(); p = mm_malloc(50); mm_free(p);
  q = mm_malloc(0xFFFFFFFFFFFFFFE1); mm_free(q); mm_malloc(50); r = mm_malloc(1);
  mm_free(r)\<close> all return, and afterwards the head of class 0 is the block 0x10C0 and the
  \<open>prev\<close> link of that block is 0x10C0, not NULL. The request of 0xFFFFFFFFFFFFFFE1 bytes
  is adjusted to 0 (the sum in the adjustment wraps), which equals \<open>failedsize\<close>, so the heap is
  extended by 0 bytes and \<open>q = 0x10C0\<close>, the end of the heap, is handed out as a block of
  size 0; freeing it makes it the head of class 0. The request of 1 byte finds no fit,
  extends the heap at the same address and returns \<open>r = 0x10C0\<close> while that block still
  heads class 0; freeing it calls \<open>insert_free\<close> on the head itself, which sets its
  \<open>prev\<close> link to the block.
\<close>

theorem heads_prev_null_broken:
  "do { (e, s) \<leftarrow> mm_init (fresh_arena 0x1000 0x2000);
        (p, s) \<leftarrow> mm_malloc 50 s;
        s \<leftarrow> mm_free p s;
        (q, s) \<leftarrow> mm_malloc 0xFFFFFFFFFFFFFFE1 s;
        s \<leftarrow> mm_free q s;
        (p', s) \<leftarrow> mm_malloc 50 s;
        (r, s) \<leftarrow> mm_malloc 1 s;
        s \<leftarrow> mm_free r s;
        Some (e, p, q, p', r, s) }
     = Some (0, 0x1070, 0x10C0, 0x1070, 0x10C0, heap_t7)
   \<and> mem heap_t7 (list_slot heap_t7 0) = Some 0x10C0
   \<and> mem heap_t7 (prev_field 0x10C0) = Some 0x10C0"
  by (simp add: heap_init_reached heap_t1_reached heap_t2_reached heap_t3_reached
      heap_t4_reached heap_t5_reached heap_t6_reached heap_t7_reached heap_t7_head)

end
